theory Spec2Isabelle
  imports Main "HOL-Library.Word" "HOL-Library.Sublist"
begin

section \<open>Errors\<close>

text \<open>
  The Go code reports failure through \<open>error\<close> return values.  The model uses a datatype
  of errors and the result type \<open>error + 'a\<close>, with \<open>Inl\<close> for a returned error.
  \<open>ErrSyntax\<close> and \<open>ErrRange\<close> are the two causes of a \<open>strconv.NumError\<close>, carrying the
  offending input; the other constructors stand for failures of the collaborators
  (subprocess, file system, JSON decoder).
\<close>

datatype error =
    ErrSyntax string
  | ErrRange string
  | ExecError string
  | FileError string
  | JSONError string
  | Panic string

section \<open>The standard library functions used by the parser\<close>

subsection \<open>\<open>strconv.ParseInt(s, 10, 64)\<close>\<close>

definition is_digit :: "char \<Rightarrow> bool" where
  "is_digit c \<longleftrightarrow> c \<in> set ''0123456789''"

definition digit_val :: "char \<Rightarrow> nat" where
  "digit_val c = of_char c - 48"

definition maxUint64 :: nat where
  "maxUint64 = 2 ^ 64 - 1"

text \<open>
  The loop of \<open>strconv.ParseUint\<close> for base 10 and bit size 64.  The accumulator \<open>n\<close> is a
  \<open>uint64\<close> in Go; the model keeps its value as a natural number and writes the two overflow
  checks of the library out: \<open>n >= cutoff\<close> (that is, \<open>n * 10\<close> overflows) and
  \<open>n * 10 + d\<close> exceeding \<open>maxUint64\<close>.  The first argument is the original string, used in
  the error value.
\<close>

fun ParseUint_loop :: "string \<Rightarrow> nat \<Rightarrow> string \<Rightarrow> error + nat" where
  "ParseUint_loop s0 n [] = Inr n"
| "ParseUint_loop s0 n (c # cs) =
     (if \<not> is_digit c then Inl (ErrSyntax s0)
      else if n \<ge> maxUint64 div 10 + 1 then Inl (ErrRange s0)
      else if n * 10 + digit_val c > maxUint64 then Inl (ErrRange s0)
      else ParseUint_loop s0 (n * 10 + digit_val c) cs)"

definition ParseUint :: "string \<Rightarrow> error + nat" where
  "ParseUint s = (if s = [] then Inl (ErrSyntax s) else ParseUint_loop s 0 s)"

text \<open>
  \<open>strconv.ParseInt\<close> picks off a leading sign, converts the rest as unsigned and checks the
  range of \<open>int64\<close>.  The result is an \<open>int64\<close>, modelled as a 64-bit word read with \<open>sint\<close>.
\<close>

definition ParseInt :: "string \<Rightarrow> error + 64 word" where
  "ParseInt s =
     (if s = [] then Inl (ErrSyntax s)
      else
        let neg = (hd s = CHR ''-'');
            body = (if hd s = CHR ''+'' \<or> hd s = CHR ''-'' then tl s else s)
        in case ParseUint body of
             Inl (ErrRange _) \<Rightarrow> Inl (ErrRange s)
           | Inl _ \<Rightarrow> Inl (ErrSyntax s)
           | Inr un \<Rightarrow>
               if \<not> neg \<and> un \<ge> 2 ^ 63 then Inl (ErrRange s)
               else if neg \<and> un > 2 ^ 63 then Inl (ErrRange s)
               else Inr (if neg then - word_of_nat un else word_of_nat un))"

subsection \<open>The regular expression \<open>[+](\d+),(\d+)\<close>\<close>

text \<open>
  \<open>match_here s\<close> is the leftmost-first match of the pattern anchored at the head of \<open>s\<close>:
  a plus sign, the longest run of ASCII digits (which must be non-empty and followed by a
  comma, since a digit is never a comma no shorter run can be followed by one), a comma, and
  the longest non-empty run of digits.  It returns the whole match, the two captured groups
  and the text after the match.
\<close>

definition match_here :: "string \<Rightarrow> (string \<times> string \<times> string \<times> string) option" where
  "match_here s =
     (case s of
        [] \<Rightarrow> None
      | c # r \<Rightarrow>
          if c \<noteq> CHR ''+'' then None
          else
            let g1 = takeWhile is_digit r; r1 = dropWhile is_digit r
            in if g1 = [] then None
               else (case r1 of
                       [] \<Rightarrow> None
                     | c' # r2 \<Rightarrow>
                         if c' \<noteq> CHR '','' then None
                         else
                           let g2 = takeWhile is_digit r2; r3 = dropWhile is_digit r2
                           in if g2 = [] then None
                              else Some (CHR ''+'' # g1 @ CHR '','' # g2, g1, g2, r3)))"

lemma match_here_shorter:
  "match_here s = Some (w, g1, g2, rest) \<Longrightarrow> length rest < length s"
proof -
  assume a: "match_here s = Some (w, g1, g2, rest)"
  have d: "\<And>P (xs::string). length (dropWhile P xs) \<le> length xs"
    by (simp add: length_dropWhile_le)
  from a obtain r r2 where "s = CHR ''+'' # r" "dropWhile is_digit r = CHR '','' # r2"
    "rest = dropWhile is_digit r2"
    by (auto simp: match_here_def Let_def split: list.splits if_splits)
  moreover have "length (dropWhile is_digit r2) \<le> length r2" by (rule d)
  moreover have "length (dropWhile is_digit r) \<le> length r" by (rule d)
  ultimately show ?thesis by simp
qed

text \<open>
  \<open>FindAllStringSubmatch(s, -1)\<close>: successive non-overlapping matches, each the leftmost one
  in what remains.  A match is the triple (\<open>match[0]\<close>, \<open>match[1]\<close>, \<open>match[2]\<close>).
\<close>

function FindAllStringSubmatch :: "string \<Rightarrow> (string \<times> string \<times> string) list" where
  "FindAllStringSubmatch s =
     (if s = [] then []
      else case match_here s of
             None \<Rightarrow> FindAllStringSubmatch (tl s)
           | Some (w, g1, g2, rest) \<Rightarrow> (w, g1, g2) # FindAllStringSubmatch rest)"
  by pat_completeness auto
termination
  by (relation "measure length") (auto dest: match_here_shorter)

declare FindAllStringSubmatch.simps [simp del]

section \<open>The hunk header parser\<close>

text \<open>
  The loop of \<open>findChangesByHunkHeader\<close> over the matches, with the slice \<open>ranges\<close> as
  accumulator.  \<open>start + amount\<close> is an \<open>int64\<close> addition and wraps around.  Go's \<open>int\<close> is
  taken to be 64 bits wide (as on amd64 and arm64), so the conversion \<open>int(x)\<close> keeps the
  value; an \<open>int\<close> is represented by its value \<open>sint x\<close>.
\<close>

fun ranges_loop :: "(string \<times> string \<times> string) list \<Rightarrow> int list list \<Rightarrow> error + int list list" where
  "ranges_loop [] ranges = Inr ranges"
| "ranges_loop ((m0, m1, m2) # matches) ranges =
     (case ParseInt m1 of
        Inl err \<Rightarrow> Inl err
      | Inr start \<Rightarrow>
          (case ParseInt m2 of
             Inl err \<Rightarrow> Inl err
           | Inr amount \<Rightarrow>
               ranges_loop matches (ranges @ [[sint start, sint (start + amount)]])))"

definition findChangesByHunkHeader :: "string \<Rightarrow> error + int list list" where
  "findChangesByHunkHeader hunkHeader = ranges_loop (FindAllStringSubmatch hunkHeader) []"

section \<open>The change set builder\<close>

record Changes =
  Start :: int
  End :: int

record FileChange =
  Changes :: "Changes list"
  Path :: string

text \<open>
  The version-control collaborator is reached through \<open>sh -c script\<close>.  The model takes the
  answer of the shell as a parameter \<open>sh\<close>: the standard output of the script, or the error of
  \<open>exec.Cmd.Output\<close>.
\<close>

type_synonym shell = "string \<Rightarrow> error + string"

text \<open>\<open>strings.Split(s, "\n")\<close>: the pieces between line feeds, one more than there are line feeds.\<close>

fun Split :: "string \<Rightarrow> string list" where
  "Split [] = [[]]"
| "Split (c # cs) =
     (if c = CHR 0x0A then [] # Split cs
      else (case Split cs of [] \<Rightarrow> [[c]] | l # ls \<Rightarrow> (c # l) # ls))"

definition listChangedFiles :: "shell \<Rightarrow> string \<Rightarrow> string \<Rightarrow> error + string list" where
  "listChangedFiles sh pwd command =
     (case sh ('' cd '' @ pwd @ ''; '' @ command @ '' --no-commit-id --name-only '') of
        Inl err \<Rightarrow> Inl err
      | Inr out \<Rightarrow> Inr (takeWhile (\<lambda>line. \<not> prefix ''commit '' line) (Split out)))"

text \<open>
  The pattern \<open>(@@[ \-+\d,]+@@)\<close> anchored at the head of the input: two at-signs, the longest
  non-empty run of characters of the class (an at-sign is not in the class, so no shorter run
  can be followed by one), two at-signs.  The result is the match and the text after it.
\<close>

definition is_hunk_char :: "char \<Rightarrow> bool" where
  "is_hunk_char c \<longleftrightarrow> c \<in> set '' -+0123456789,''"

definition hunk_here :: "string \<Rightarrow> (string \<times> string) option" where
  "hunk_here s =
     (case s of
        a # b # r \<Rightarrow>
          if a \<noteq> CHR ''@'' \<or> b \<noteq> CHR ''@'' then None
          else
            let body = takeWhile is_hunk_char r; r1 = dropWhile is_hunk_char r
            in if body = [] then None
               else (case r1 of
                       c # d # r2 \<Rightarrow>
                         if c \<noteq> CHR ''@'' \<or> d \<noteq> CHR ''@'' then None
                         else Some (''@@'' @ body @ ''@@'', r2)
                     | _ \<Rightarrow> None)
      | _ \<Rightarrow> None)"

lemma hunk_here_shorter:
  assumes "hunk_here s = Some (w, rest)"
  shows "length rest < length s"
proof -
  from assms obtain r where s: "s = CHR ''@'' # CHR ''@'' # r"
    and r: "dropWhile is_hunk_char r = CHR ''@'' # CHR ''@'' # rest"
    by (auto simp: hunk_here_def Let_def split: list.splits if_splits)
  have "length (dropWhile is_hunk_char r) \<le> length r"
    by (rule length_dropWhile_le)
  with s r show ?thesis by simp
qed

function FindAllString :: "string \<Rightarrow> string list" where
  "FindAllString s =
     (if s = [] then []
      else case hunk_here s of
             None \<Rightarrow> FindAllString (tl s)
           | Some (w, rest) \<Rightarrow> w # FindAllString rest)"
  by pat_completeness auto
termination
  by (relation "measure length") (auto dest: hunk_here_shorter)

declare FindAllString.simps [simp del]

definition findHunkHeadersOfFile :: "shell \<Rightarrow> string \<Rightarrow> string \<Rightarrow> string \<Rightarrow> error + string list" where
  "findHunkHeadersOfFile sh pwd cmd file =
     (case sh (''cd '' @ pwd @ ''; '' @ cmd @ '' -- '' @ file) of
        Inl err \<Rightarrow> Inl err
      | Inr out \<Rightarrow> Inr (FindAllString out))"

text \<open>
  The three nested loops of \<open>findChanges\<close>, innermost first; each carries the slice it
  appends to.  Indexing a position slice shorter than two elements panics in Go.
\<close>

fun positions_loop :: "int list list \<Rightarrow> Changes list \<Rightarrow> error + Changes list" where
  "positions_loop [] changes = Inr changes"
| "positions_loop (changesPosition # rest) changes =
     (if length changesPosition < 2 then Inl (Panic ''index out of range'')
      else positions_loop rest
             (changes @ [\<lparr>Start = changesPosition ! 0, End = changesPosition ! 1\<rparr>]))"

fun headers_loop :: "string list \<Rightarrow> Changes list \<Rightarrow> error + Changes list" where
  "headers_loop [] changes = Inr changes"
| "headers_loop (hunkHeader # rest) changes =
     (case findChangesByHunkHeader hunkHeader of
        Inl err \<Rightarrow> Inl err
      | Inr changesPositions \<Rightarrow>
          (case positions_loop changesPositions changes of
             Inl err \<Rightarrow> Inl err
           | Inr changes' \<Rightarrow> headers_loop rest changes'))"

fun files_loop ::
  "shell \<Rightarrow> string \<Rightarrow> string \<Rightarrow> string list \<Rightarrow> FileChange list \<Rightarrow> error + FileChange list" where
  "files_loop sh pwd cmd [] fileChanges = Inr fileChanges"
| "files_loop sh pwd cmd (file # rest) fileChanges =
     (case findHunkHeadersOfFile sh pwd cmd file of
        Inl err \<Rightarrow> Inl err
      | Inr hunkHeaders \<Rightarrow>
          (case headers_loop hunkHeaders [] of
             Inl err \<Rightarrow> Inl err
           | Inr changes \<Rightarrow>
               if length changes = 0 then files_loop sh pwd cmd rest fileChanges
               else files_loop sh pwd cmd rest
                      (fileChanges @ [\<lparr>Changes = changes, Path = file\<rparr>])))"

definition findChanges :: "shell \<Rightarrow> string \<Rightarrow> string \<Rightarrow> error + FileChange list" where
  "findChanges sh pwd cmd =
     (case listChangedFiles sh pwd cmd of
        Inl err \<Rightarrow> Inl err
      | Inr files \<Rightarrow> files_loop sh pwd cmd files [])"

text \<open>The Go map is a partial function; a repeated path overwrites the earlier entry.\<close>

definition getChangesByFileName :: "FileChange list \<Rightarrow> (string \<rightharpoonup> FileChange)" where
  "getChangesByFileName changes =
     foldl (\<lambda>changesByFileName change. changesByFileName(Path change \<mapsto> change)) Map.empty changes"

section \<open>The issue filter and the orchestrator\<close>

text \<open>
  A finding is a \<open>result.Issue\<close> of the lint runner; of its fields the model keeps the linter
  name, the message and the position.  \<open>FilePath\<close> is the file name of the position.
\<close>

record Position =
  Filename :: string
  Offset :: int
  Line :: int
  Column :: int

record Issue =
  FromLinter :: string
  Text :: string
  Pos :: Position

definition FilePath :: "Issue \<Rightarrow> string" where
  "FilePath issue = Filename (Pos issue)"

text \<open>
  The selection loop of \<open>main\<close>.  \<open>printIssue\<close> hands the issue to the text printer of the
  lint runner; the model records the sequence of issues handed over, in the accumulator
  \<open>printed\<close>.  A failure of the printer itself (\<open>log.Fatal\<close>) is not modelled.  The line
  numbers and range bounds are Go \<open>int\<close>s that are only compared here, so they are kept as
  their values.
\<close>

fun changes_loop :: "Issue \<Rightarrow> Changes list \<Rightarrow> Issue list \<Rightarrow> Issue list" where
  "changes_loop issue [] printed = printed"
| "changes_loop issue (change # rest) printed =
     (if Start change \<le> Line (Pos issue) \<and> Line (Pos issue) \<le> End change
      then changes_loop issue rest (printed @ [issue])
      else changes_loop issue rest printed)"

fun issues_loop :: "(string \<rightharpoonup> FileChange) \<Rightarrow> Issue list \<Rightarrow> Issue list \<Rightarrow> Issue list" where
  "issues_loop changesByFileName [] printed = printed"
| "issues_loop changesByFileName (issue # rest) printed =
     (case changesByFileName (FilePath issue) of
        None \<Rightarrow> issues_loop changesByFileName rest printed
      | Some changes \<Rightarrow>
          issues_loop changesByFileName rest (changes_loop issue (Changes changes) printed))"

definition select :: "Issue list \<Rightarrow> (string \<rightharpoonup> FileChange) \<Rightarrow> Issue list" where
  "select issues changesByFileName = issues_loop changesByFileName issues []"

text \<open>The lint runner: its configuration, its setters and the two operations on it.\<close>

record GolangCILint =
  binPath :: string
  pwdPath :: string
  outputFormat :: string
  outputFile :: string
  checkingPath :: string

definition NewGolangCILint :: GolangCILint where
  "NewGolangCILint =
     \<lparr>binPath = ''/home/shane/go/bin/golangci-lint'', pwdPath = ''.'', outputFormat = [],
      outputFile = [], checkingPath = []\<rparr>"

definition SetPwd :: "string \<Rightarrow> GolangCILint \<Rightarrow> GolangCILint" where
  "SetPwd path g = g\<lparr>pwdPath := path\<rparr>"

definition SetOutputJSON :: "string \<Rightarrow> GolangCILint \<Rightarrow> GolangCILint" where
  "SetOutputJSON filename g = g\<lparr>outputFormat := ''json:'' @ filename, outputFile := filename\<rparr>"

definition SetInspectDes :: "string \<Rightarrow> GolangCILint \<Rightarrow> GolangCILint" where
  "SetInspectDes path g = g\<lparr>checkingPath := path\<rparr>"

text \<open>
  The world outside the process, as far as \<open>main\<close> consults it: \<open>run_status\<close> is the error (if any) of
  \<open>exec.Cmd.Run\<close> on \<open>sh -c script\<close>, \<open>run_output\<close> the answer of \<open>exec.Cmd.Output\<close>, \<open>read_file\<close>
  the bytes of a file (\<open>os.Open\<close> followed by \<open>io.ReadAll\<close>) and \<open>unmarshal\<close> the issues of the
  decoded \<open>printers.JSONResult\<close>.
\<close>

record world =
  run_status :: "string \<Rightarrow> error option"
  run_output :: shell
  read_file :: "string \<Rightarrow> error + string"
  unmarshal :: "string \<Rightarrow> error + Issue list"

definition Execute :: "world \<Rightarrow> GolangCILint \<Rightarrow> error option" where
  "Execute w g =
     run_status w (''cd '' @ pwdPath g @ ''; '' @ binPath g @ '' run --out-format '' @ outputFormat g
            @ '' '' @ checkingPath g)"

definition FindJSONIssues :: "world \<Rightarrow> GolangCILint \<Rightarrow> error + Issue list" where
  "FindJSONIssues w g =
     (case read_file w (outputFile g) of
        Inl err \<Rightarrow> Inl err
      | Inr bytes \<Rightarrow>
          (case unmarshal w bytes of
             Inl err \<Rightarrow> Inl err
           | Inr issues \<Rightarrow> Inr issues))"

text \<open>
  A run of \<open>main\<close> either panics with an error (\<open>log.Panicln\<close>) or ends after printing a
  sequence of issues.  The arguments are the four command-line options.  The result of
  \<open>lint.Execute()\<close> is assigned to the blank identifier.
\<close>

datatype outcome = Panicked error | Printed "Issue list"

definition main :: "world \<Rightarrow> string \<Rightarrow> string \<Rightarrow> string \<Rightarrow> string \<Rightarrow> outcome" where
  "main w pwd cmd jsonFile inspectDes =
     (let lint = SetInspectDes inspectDes (SetOutputJSON jsonFile (SetPwd pwd NewGolangCILint));
          _ = Execute w lint
      in case FindJSONIssues w lint of
           Inl err \<Rightarrow> Panicked err
         | Inr issues \<Rightarrow>
             (case findChanges (run_output w) pwd cmd of
                Inl err \<Rightarrow> Panicked err
              | Inr changes \<Rightarrow> Printed (select issues (getChangesByFileName changes))))"

section \<open>Auxiliary notions for stating the properties\<close>

text \<open>The test of the selection loop, and the number of ranges of an issue's file that pass it.\<close>

definition in_range :: "Issue \<Rightarrow> Changes \<Rightarrow> bool" where
  "in_range issue change \<longleftrightarrow> Start change \<le> Line (Pos issue) \<and> Line (Pos issue) \<le> End change"

definition hits :: "(string \<rightharpoonup> FileChange) \<Rightarrow> Issue \<Rightarrow> nat" where
  "hits changesByFileName issue =
     (case changesByFileName (FilePath issue) of
        None \<Rightarrow> 0
      | Some changes \<Rightarrow> length (filter (in_range issue) (Changes changes)))"

text \<open>
  The value of a run of decimal digits, and what one match of the pattern contributes: the
  slice \<open>[]int{int(start), int(start + amount)}\<close> when both captured fields parse.
\<close>

definition decimal :: "string \<Rightarrow> nat" where
  "decimal ds = foldl (\<lambda>n c. n * 10 + digit_val c) 0 ds"

definition range_of :: "string \<times> string \<times> string \<Rightarrow> int list" where
  "range_of m =
     (case m of (m0, m1, m2) \<Rightarrow>
        (case ParseInt m1 of
           Inl _ \<Rightarrow> []
         | Inr start \<Rightarrow>
             (case ParseInt m2 of
                Inl _ \<Rightarrow> []
              | Inr amount \<Rightarrow> [sint start, sint (start + amount)])))"

definition fields_ok :: "string \<times> string \<times> string \<Rightarrow> bool" where
  "fields_ok m = (case m of (m0, m1, m2) \<Rightarrow> \<not> isl (ParseInt m1) \<and> \<not> isl (ParseInt m2))"

text \<open>
  What the loops of \<open>findChanges\<close> collect when nothing fails: the ranges of one header, the
  headers of one file, and the ranges of one file.  \<open>file_ok\<close> says that the command for the
  file succeeded and that each of its headers parsed.
\<close>

definition changes_of_header :: "string \<Rightarrow> Changes list" where
  "changes_of_header h =
     map (\<lambda>p. \<lparr>Start = p ! 0, End = p ! 1\<rparr>)
       (case findChangesByHunkHeader h of Inl _ \<Rightarrow> [] | Inr ps \<Rightarrow> ps)"

definition headers_of :: "shell \<Rightarrow> string \<Rightarrow> string \<Rightarrow> string \<Rightarrow> string list" where
  "headers_of sh pwd cmd file =
     (case findHunkHeadersOfFile sh pwd cmd file of Inl _ \<Rightarrow> [] | Inr hs \<Rightarrow> hs)"

definition changes_of_file :: "shell \<Rightarrow> string \<Rightarrow> string \<Rightarrow> string \<Rightarrow> Changes list" where
  "changes_of_file sh pwd cmd file = concat (map changes_of_header (headers_of sh pwd cmd file))"

definition file_ok :: "shell \<Rightarrow> string \<Rightarrow> string \<Rightarrow> string \<Rightarrow> bool" where
  "file_ok sh pwd cmd file \<longleftrightarrow>
     \<not> isl (findHunkHeadersOfFile sh pwd cmd file)
     \<and> list_all (\<lambda>h. \<not> isl (findChangesByHunkHeader h)) (headers_of sh pwd cmd file)"

text \<open>Concrete findings and change indexes for the examples.\<close>

definition issue_at :: "string \<Rightarrow> int \<Rightarrow> Issue" where
  "issue_at file l =
     \<lparr>FromLinter = ''errcheck'', Text = ''unchecked error'',
      Pos = \<lparr>Filename = file, Offset = 0, Line = l, Column = 1\<rparr>\<rparr>"

definition index_of :: "string \<Rightarrow> (int \<times> int) list \<Rightarrow> (string \<rightharpoonup> FileChange)" where
  "index_of file rs =
     getChangesByFileName [\<lparr>Changes = map (\<lambda>(s, e). \<lparr>Start = s, End = e\<rparr>) rs, Path = file\<rparr>]"

text \<open>A shell and a world for the examples: two changed files, and a lint runner that exits with status 1.\<close>

definition example_shell :: shell where
  "example_shell script =
     (if script = '' cd .; git diff -U0 --no-commit-id --name-only ''
      then Inr (''a.go'' @ [CHR 0x0A] @ ''b.go'' @ [CHR 0x0A])
      else if script = ''cd .; git diff -U0 -- a.go''
      then Inr (''@@ -8,2 +8,2 @@ f'' @ [CHR 0x0A] @ ''@@ -11,1 +10,0 @@'' @ [CHR 0x0A])
      else if script = ''cd .; git diff -U0 -- b.go''
      then Inr (''@@ -3 +3 @@'' @ [CHR 0x0A])
      else Inr [])"

definition example_world :: world where
  "example_world =
     \<lparr>run_status = (\<lambda>script. Some (ExecError ''exit status 1'')),
      run_output = example_shell,
      read_file = (\<lambda>name. if name = ''/tmp/golang_ci_lint.json'' then Inr ''report''
                          else Inl (FileError name)),
      unmarshal = (\<lambda>bytes. if bytes = ''report''
                            then Inr [issue_at ''a.go'' 9, issue_at ''a.go'' 12, issue_at ''b.go'' 3]
                            else Inl (JSONError bytes))\<rparr>"

lemmas example_defs = issue_at_def index_of_def getChangesByFileName_def FilePath_def
  select_def

section \<open>Properties of the hunk header parser and of the library functions it uses\<close>

lemma is_digit_simps [simp]:
  "\<not> is_digit CHR ''+''" "\<not> is_digit CHR '',''" "\<not> is_digit CHR ''-''"
  "\<not> is_digit CHR '' ''" "\<not> is_digit CHR ''@''"
  by (simp_all add: is_digit_def)

lemma foldl_dec_ge: "n \<le> foldl (\<lambda>n c. n * 10 + digit_val c) n ds"
proof (induction ds arbitrary: n)
  case Nil show ?case by simp
next
  case (Cons c cs)
  have "n \<le> n * 10 + digit_val c" by simp
  also have "\<dots> \<le> foldl (\<lambda>n c. n * 10 + digit_val c) (n * 10 + digit_val c) cs"
    by (rule Cons.IH)
  finally show ?case by simp
qed

lemma sint_word_of_nat:
  "n < 2 ^ 63 \<Longrightarrow> sint (word_of_nat n :: 64 word) = int n"
proof -
  assume a: "n < 2 ^ 63"
  have "sint (word_of_nat n :: 64 word) = signed_take_bit 63 (int n)"
    by (simp add: signed_of_nat)
  also have "\<dots> = int n"
  proof (rule signed_take_bit_int_eq_self)
    show "- (2 ^ 63) \<le> int n" by simp
    from a have "int n < int (2 ^ 63)" by (simp only: of_nat_less_iff)
    then show "int n < 2 ^ 63" by simp
  qed
  finally show ?thesis .
qed

lemma maxUint64_val: "maxUint64 = 18446744073709551615"
  by (simp add: maxUint64_def)

lemma cutoff_overflow:
  assumes "maxUint64 div 10 + 1 \<le> n"
  shows "maxUint64 < n * 10 + d"
proof -
  have "maxUint64 div 10 + 1 = (1844674407370955162::nat)"
    by (simp add: maxUint64_val)
  with assms have "(1844674407370955162::nat) \<le> n" by simp
  then show ?thesis unfolding maxUint64_val by linarith
qed

lemma ParseUint_loop_digits:
  "list_all is_digit ds \<Longrightarrow> n \<le> maxUint64 \<Longrightarrow>
   ParseUint_loop s0 n ds =
     (if foldl (\<lambda>n c. n * 10 + digit_val c) n ds \<le> maxUint64
      then Inr (foldl (\<lambda>n c. n * 10 + digit_val c) n ds) else Inl (ErrRange s0))"
proof (induction ds arbitrary: n)
  case Nil
  then show ?case by simp
next
  case (Cons c cs)
  let ?n1 = "n * 10 + digit_val c"
  let ?r = "foldl (\<lambda>n c. n * 10 + digit_val c) ?n1 cs"
  from Cons.prems(1) have c: "is_digit c" and cs: "list_all is_digit cs" by simp_all
  have ge: "?n1 \<le> ?r" by (rule foldl_dec_ge)
  have f: "foldl (\<lambda>n c. n * 10 + digit_val c) n (c # cs) = ?r" by simp
  show ?case
  proof (cases "maxUint64 div 10 + 1 \<le> n")
    case True
    then have "maxUint64 < ?n1" by (rule cutoff_overflow)
    with ge have "\<not> ?r \<le> maxUint64" by linarith
    with True c show ?thesis unfolding f by simp
  next
    case False
    show ?thesis
    proof (cases "maxUint64 < ?n1")
      case True
      with ge have "\<not> ?r \<le> maxUint64" by linarith
      with True False c show ?thesis unfolding f by simp
    next
      case nov: False
      have "ParseUint_loop s0 n (c # cs) = ParseUint_loop s0 ?n1 cs"
        using c False nov by simp
      also have "\<dots> = (if ?r \<le> maxUint64 then Inr ?r else Inl (ErrRange s0))"
        using nov by (intro Cons.IH [OF cs]) simp
      finally show ?thesis unfolding f .
    qed
  qed
qed

lemma ParseUint_digits:
  assumes "ds \<noteq> []" "list_all is_digit ds"
  shows "ParseUint ds =
     (if decimal ds \<le> maxUint64 then Inr (decimal ds) else Inl (ErrRange ds))"
proof -
  have "ParseUint ds = ParseUint_loop ds 0 ds"
    using assms(1) by (simp add: ParseUint_def)
  also have "\<dots> = (if decimal ds \<le> maxUint64 then Inr (decimal ds) else Inl (ErrRange ds))"
    unfolding decimal_def by (rule ParseUint_loop_digits [OF assms(2)]) simp
  finally show ?thesis .
qed

lemma ParseInt_unsigned:
  assumes "s \<noteq> []" "hd s \<noteq> CHR ''+''" "hd s \<noteq> CHR ''-''"
  shows "ParseInt s =
     (case ParseUint s of
        Inl (ErrRange x) \<Rightarrow> Inl (ErrRange s)
      | Inl _ \<Rightarrow> Inl (ErrSyntax s)
      | Inr un \<Rightarrow> if un \<ge> 2 ^ 63 then Inl (ErrRange s) else Inr (word_of_nat un))"
  using assms by (simp add: ParseInt_def split: sum.split error.split)

lemma two63_le_max: "\<not> n \<le> maxUint64 \<Longrightarrow> \<not> n < 2 ^ 63"
  unfolding maxUint64_val by simp

lemma ParseInt_digits:
  assumes "ds \<noteq> []" "list_all is_digit ds"
  shows "ParseInt ds =
     (if decimal ds < 2 ^ 63 then Inr (word_of_nat (decimal ds)) else Inl (ErrRange ds))"
proof -
  from assms obtain c cs where ds: "ds = c # cs" and c: "is_digit c"
    by (cases ds) auto
  from c have "c \<noteq> CHR ''+''" "c \<noteq> CHR ''-''" by auto
  then have hd: "hd ds \<noteq> CHR ''+''" "hd ds \<noteq> CHR ''-''" by (simp_all add: ds)
  note pi = ParseInt_unsigned [OF assms(1) hd]
  note pu = ParseUint_digits [OF assms]
  show ?thesis
  proof (cases "decimal ds \<le> maxUint64")
    case True
    then have "ParseUint ds = Inr (decimal ds)" by (simp only: pu if_True)
    then have "ParseInt ds = (if decimal ds \<ge> 2 ^ 63 then Inl (ErrRange ds) else Inr (word_of_nat (decimal ds)))"
      by (simp only: pi sum.case)
    then show ?thesis by (simp add: not_le)
  next
    case False
    then have "ParseUint ds = Inl (ErrRange ds)" by (simp only: pu if_False)
    then have "ParseInt ds = Inl (ErrRange ds)" by (simp only: pi sum.case error.case)
    moreover from False have "\<not> decimal ds < 2 ^ 63" by (rule two63_le_max)
    ultimately show ?thesis by (simp only: if_False)
  qed
qed

lemma sint_word_of_nat_add:
  assumes "a + b < 2 ^ 63"
  shows "sint (word_of_nat a + word_of_nat b :: 64 word) = int a + int b"
proof -
  have "(word_of_nat a + word_of_nat b :: 64 word) = word_of_nat (a + b)"
    by (simp only: of_nat_add)
  then have "sint (word_of_nat a + word_of_nat b :: 64 word) = int (a + b)"
    using sint_word_of_nat [OF assms] by (simp only:)
  then show ?thesis by (simp only: of_nat_add)
qed

lemma takeWhile_digits_append:
  assumes "list_all is_digit ds" "rest = [] \<or> \<not> is_digit (hd rest)"
  shows "takeWhile is_digit (ds @ rest) = ds" "dropWhile is_digit (ds @ rest) = rest"
proof -
  from assms(1) have a: "\<And>x. x \<in> set ds \<Longrightarrow> is_digit x" by (simp add: list_all_iff)
  from assms(2) have r: "takeWhile is_digit rest = []" "dropWhile is_digit rest = rest"
    by (cases rest; simp)+
  show "takeWhile is_digit (ds @ rest) = ds" using a r by (simp add: takeWhile_append2)
  show "dropWhile is_digit (ds @ rest) = rest" using a r by (simp add: dropWhile_append2)
qed

lemma match_here_block:
  assumes "g1 \<noteq> []" "list_all is_digit g1" "g2 \<noteq> []" "list_all is_digit g2"
    and "rest = [] \<or> \<not> is_digit (hd rest)"
  shows "match_here (CHR ''+'' # g1 @ CHR '','' # g2 @ rest) =
           Some (CHR ''+'' # g1 @ CHR '','' # g2, g1, g2, rest)"
proof -
  have 1: "takeWhile is_digit (g1 @ CHR '','' # g2 @ rest) = g1"
    "dropWhile is_digit (g1 @ CHR '','' # g2 @ rest) = CHR '','' # g2 @ rest"
    by (rule takeWhile_digits_append [OF assms(2)], simp)+
  have 2: "takeWhile is_digit (g2 @ rest) = g2" "dropWhile is_digit (g2 @ rest) = rest"
    by (rule takeWhile_digits_append [OF assms(4,5)])+
  show ?thesis
    using assms(1,3) by (simp add: match_here_def 1 2)
qed

lemma match_here_not_plus: "c \<noteq> CHR ''+'' \<Longrightarrow> match_here (c # s) = None"
  by (simp add: match_here_def)

lemma FindAll_Nil: "FindAllStringSubmatch [] = []"
  by (simp add: FindAllStringSubmatch.simps)

lemma FindAll_skip: "match_here (c # s) = None \<Longrightarrow>
    FindAllStringSubmatch (c # s) = FindAllStringSubmatch s"
  by (subst FindAllStringSubmatch.simps) simp

lemma FindAll_match: "match_here (c # s) = Some (w, g1, g2, rest) \<Longrightarrow>
    FindAllStringSubmatch (c # s) = (w, g1, g2) # FindAllStringSubmatch rest"
  by (subst FindAllStringSubmatch.simps) simp

lemma FindAll_no_plus_prefix:
  "CHR ''+'' \<notin> set pre \<Longrightarrow> FindAllStringSubmatch (pre @ s) = FindAllStringSubmatch s"
proof (induction pre)
  case Nil show ?case by simp
next
  case (Cons a pre)
  then have "a \<noteq> CHR ''+''" by auto
  then have "match_here (a # pre @ s) = None" by (rule match_here_not_plus)
  then have "FindAllStringSubmatch (a # pre @ s) = FindAllStringSubmatch (pre @ s)"
    by (rule FindAll_skip)
  with Cons show ?case by simp
qed

lemma FindAll_no_plus: "CHR ''+'' \<notin> set s \<Longrightarrow> FindAllStringSubmatch s = []"
  using FindAll_no_plus_prefix [of s "[]"] by (simp add: FindAll_Nil)

lemma FindAll_block:
  assumes "g1 \<noteq> []" "list_all is_digit g1" "g2 \<noteq> []" "list_all is_digit g2"
    and "rest = [] \<or> \<not> is_digit (hd rest)"
  shows "FindAllStringSubmatch (CHR ''+'' # g1 @ CHR '','' # g2 @ rest) =
           (CHR ''+'' # g1 @ CHR '','' # g2, g1, g2) # FindAllStringSubmatch rest"
  by (rule FindAll_match) (rule match_here_block [OF assms])

lemma match_here_Some:
  assumes "match_here s = Some (w, g1, g2, rest)"
  shows "g1 \<noteq> [] \<and> list_all is_digit g1 \<and> g2 \<noteq> [] \<and> list_all is_digit g2
         \<and> w = CHR ''+'' # g1 @ CHR '','' # g2 \<and> s = w @ rest"
proof -
  from assms obtain r r2 where s: "s = CHR ''+'' # r"
    and g1: "g1 = takeWhile is_digit r" "g1 \<noteq> []"
    and r: "dropWhile is_digit r = CHR '','' # r2"
    and g2: "g2 = takeWhile is_digit r2" "g2 \<noteq> []"
    and rest: "rest = dropWhile is_digit r2"
    and w: "w = CHR ''+'' # g1 @ CHR '','' # g2"
    by (auto simp: match_here_def Let_def split: list.splits if_splits)
  have d1: "list_all is_digit g1" unfolding g1(1) list_all_iff
    by (auto dest: set_takeWhileD)
  have d2: "list_all is_digit g2" unfolding g2(1) list_all_iff
    by (auto dest: set_takeWhileD)
  have "r = g1 @ CHR '','' # r2"
    using takeWhile_dropWhile_id [of is_digit r] by (simp only: g1(1) r)
  moreover have "r2 = g2 @ rest"
    using takeWhile_dropWhile_id [of is_digit r2] by (simp only: g2(1) rest)
  ultimately have "s = w @ rest" by (simp add: s w)
  with g1(2) g2(2) d1 d2 w show ?thesis by blast
qed

lemma FindAll_captures:
  "(m0, m1, m2) \<in> set (FindAllStringSubmatch s) \<Longrightarrow>
   m1 \<noteq> [] \<and> list_all is_digit m1 \<and> m2 \<noteq> [] \<and> list_all is_digit m2"
proof (induction s rule: FindAllStringSubmatch.induct)
  case (1 s)
  show ?case
  proof (cases "s = []")
    case True
    with "1.prems" show ?thesis by (simp add: FindAll_Nil)
  next
    case False
    then obtain c cs where s: "s = c # cs" by (cases s) auto
    show ?thesis
    proof (cases "match_here s")
      case None
      then have "FindAllStringSubmatch s = FindAllStringSubmatch (tl s)"
        unfolding s by (simp add: FindAll_skip)
      with "1.prems" "1.IH"(1) [OF False None] show ?thesis by simp
    next
      case (Some r)
      obtain w g1 g2 rest where r: "r = (w, g1, g2, rest)" by (cases r) auto
      from Some r have mh: "match_here s = Some (w, g1, g2, rest)" by simp
      then have fa: "FindAllStringSubmatch s = (w, g1, g2) # FindAllStringSubmatch rest"
        unfolding s by (rule FindAll_match)
      from "1.prems" fa have "(m0, m1, m2) = (w, g1, g2) \<or> (m0, m1, m2) \<in> set (FindAllStringSubmatch rest)"
        by simp
      then show ?thesis
      proof
        assume "(m0, m1, m2) = (w, g1, g2)"
        with match_here_Some [OF mh] show ?thesis by simp
      next
        assume "(m0, m1, m2) \<in> set (FindAllStringSubmatch rest)"
        then show ?thesis
          by (rule "1.IH"(2) [OF False mh refl refl refl])
      qed
    qed
  qed
qed

lemma ranges_loop_step_ok:
  assumes "fields_ok m"
  shows "ranges_loop (m # ms) acc = ranges_loop ms (acc @ [range_of m])"
proof -
  obtain m0 m1 m2 where m: "m = (m0, m1, m2)" by (cases m) auto
  from assms obtain a b where "ParseInt m1 = Inr a" "ParseInt m2 = Inr b"
    unfolding m fields_ok_def by (cases "ParseInt m1"; cases "ParseInt m2") auto
  then show ?thesis by (simp add: m range_of_def)
qed

lemma ranges_loop_step_fail:
  assumes "\<not> fields_ok m"
  shows "\<exists>e. ranges_loop (m # ms) acc = Inl e
             \<and> (ParseInt (fst (snd m)) = Inl e \<or> ParseInt (snd (snd m)) = Inl e)"
proof -
  obtain m0 m1 m2 where m: "m = (m0, m1, m2)" by (cases m) auto
  show ?thesis
  proof (cases "ParseInt m1")
    case (Inl e) then show ?thesis by (simp add: m)
  next
    case (Inr a)
    with assms obtain e where "ParseInt m2 = Inl e"
      unfolding m fields_ok_def by (cases "ParseInt m2") auto
    with Inr show ?thesis by (simp add: m)
  qed
qed

lemma ranges_loop_ok:
  "\<forall>m\<in>set ms. fields_ok m \<Longrightarrow> ranges_loop ms acc = Inr (acc @ map range_of ms)"
proof (induction ms arbitrary: acc)
  case Nil show ?case by simp
next
  case (Cons m ms)
  then have "fields_ok m" and rest: "\<forall>m\<in>set ms. fields_ok m" by simp_all
  then have "ranges_loop (m # ms) acc = ranges_loop ms (acc @ [range_of m])"
    by (simp only: ranges_loop_step_ok)
  also have "\<dots> = Inr ((acc @ [range_of m]) @ map range_of ms)"
    by (rule Cons.IH [OF rest])
  finally show ?case by simp
qed

lemma ranges_loop_fail:
  "\<not> (\<forall>m\<in>set ms. fields_ok m) \<Longrightarrow>
   \<exists>e. ranges_loop ms acc = Inl e
      \<and> (\<exists>m\<in>set ms. ParseInt (fst (snd m)) = Inl e \<or> ParseInt (snd (snd m)) = Inl e)"
proof (induction ms arbitrary: acc)
  case Nil then show ?case by simp
next
  case (Cons m ms)
  show ?case
  proof (cases "fields_ok m")
    case False
    from ranges_loop_step_fail [OF False, of ms acc] show ?thesis by auto
  next
    case True
    with Cons.prems have "\<not> (\<forall>m\<in>set ms. fields_ok m)" by simp
    from Cons.IH [OF this, of "acc @ [range_of m]"]
    show ?thesis by (auto simp: ranges_loop_step_ok [OF True])
  qed
qed

lemma fields_ok_digits:
  assumes "(m0, m1, m2) \<in> set (FindAllStringSubmatch h)"
  shows "(isl (ParseInt m1) \<longleftrightarrow> 2 ^ 63 \<le> decimal m1) \<and> (isl (ParseInt m2) \<longleftrightarrow> 2 ^ 63 \<le> decimal m2)"
proof -
  from FindAll_captures [OF assms]
  have 1: "m1 \<noteq> []" "list_all is_digit m1" and 2: "m2 \<noteq> []" "list_all is_digit m2" by simp_all
  show ?thesis
    by (simp add: ParseInt_digits [OF 1] ParseInt_digits [OF 2] not_less)
qed

lemma range_of_digits:
  assumes "m1 \<noteq> []" "list_all is_digit m1" "m2 \<noteq> []" "list_all is_digit m2"
    and "decimal m1 < 2 ^ 63" "decimal m2 < 2 ^ 63"
  shows "range_of (m0, m1, m2) =
    [int (decimal m1), sint (word_of_nat (decimal m1) + word_of_nat (decimal m2) :: 64 word)]"
  using assms(5,6) sint_word_of_nat [OF assms(5)]
  by (simp add: range_of_def ParseInt_digits [OF assms(1,2)] ParseInt_digits [OF assms(3,4)])

section \<open>Properties of the issue filter\<close>

lemma in_range_fun:
  "in_range issue = (\<lambda>c. Start c \<le> Line (Pos issue) \<and> Line (Pos issue) \<le> End c)"
  by (rule ext) (simp add: in_range_def)

lemma changes_loop_replicate:
  "changes_loop issue cs printed = printed @ replicate (length (filter (in_range issue) cs)) issue"
  by (induction cs arbitrary: printed) (simp_all add: in_range_def)

lemma issues_loop_concat:
  "issues_loop m issues printed = printed @ concat (map (\<lambda>i. replicate (hits m i) i) issues)"
  by (induction issues arbitrary: printed)
     (simp_all add: hits_def changes_loop_replicate split: option.split)

lemma select_concat: "select issues m = concat (map (\<lambda>i. replicate (hits m i) i) issues)"
  by (simp add: select_def issues_loop_concat)

lemma select_append: "select (xs @ ys) m = select xs m @ select ys m"
  by (simp add: select_concat)

lemma select_Cons: "select (i # xs) m = replicate (hits m i) i @ select xs m"
  by (simp add: select_concat)

lemma select_Nil: "select [] m = []"
  by (simp add: select_concat)

lemma set_select: "set (select issues m) = {i \<in> set issues. 0 < hits m i}"
proof (induction issues)
  case Nil show ?case by (simp add: select_Nil)
next
  case (Cons i issues)
  have "set (replicate (hits m i) i) = (if 0 < hits m i then {i} else {})"
    by (simp add: set_replicate_conv_if)
  with Cons show ?case by (auto simp: select_Cons)
qed

lemma hits_pos_iff:
  "0 < hits m i \<longleftrightarrow> (\<exists>fc. m (FilePath i) = Some fc \<and> (\<exists>c\<in>set (Changes fc). in_range i c))"
proof (cases "m (FilePath i)")
  case None then show ?thesis by (simp add: hits_def)
next
  case (Some fc)
  then show ?thesis by (simp add: hits_def filter_empty_conv)
qed

lemma count_replicate: "count_list (replicate n j) i = (if i = j then n else 0)"
  by (induction n) auto

lemma count_select: "count_list (select issues m) i = count_list issues i * hits m i"
proof (induction issues)
  case Nil show ?case by (simp add: select_Nil)
next
  case (Cons j issues)
  have "count_list (replicate (hits m j) j) i = (if i = j then hits m j else 0)"
    by (rule count_replicate)
  with Cons show ?case by (simp add: select_Cons)
qed

lemma select_filter_le1:
  assumes "\<forall>i\<in>set issues. hits m i \<le> 1"
  shows "select issues m = filter (\<lambda>i. 0 < hits m i) issues"
  using assms
proof (induction issues)
  case Nil show ?case by (simp add: select_Nil)
next
  case (Cons i issues)
  then have "hits m i = 0 \<or> hits m i = 1" by auto
  with Cons show ?case by (auto simp: select_Cons)
qed

text \<open>
  Claim C1.  An issue is among the issues the selection loop prints if and only if it is one
  of the input issues, its file path is a key of the change index, and some range of that
  file has \<open>Start \<le> Line \<le> End\<close>.  In particular an issue on the first or on the last line of
  a range (with \<open>Start \<le> End\<close>, as the data model has it) is printed, and an issue on the line
  after the end of every range of its file is not.
\<close>

theorem C1_selected_iff_in_some_range:
  "(issue \<in> set (select issues changesByFileName) \<longleftrightarrow>
      issue \<in> set issues \<and>
      (\<exists>fc. changesByFileName (FilePath issue) = Some fc \<and>
        (\<exists>c\<in>set (Changes fc). Start c \<le> Line (Pos issue) \<and> Line (Pos issue) \<le> End c)))
   \<and> (issue \<in> set issues \<and> changesByFileName (FilePath issue) = Some fc \<and> c \<in> set (Changes fc)
        \<and> Start c \<le> End c \<and> (Line (Pos issue) = Start c \<or> Line (Pos issue) = End c)
      \<longrightarrow> issue \<in> set (select issues changesByFileName))
   \<and> (changesByFileName (FilePath issue) = Some fc
        \<and> (\<forall>c\<in>set (Changes fc). Line (Pos issue) = End c + 1)
      \<longrightarrow> issue \<notin> set (select issues changesByFileName))"
proof -
  have iff: "issue \<in> set (select issues changesByFileName) \<longleftrightarrow>
      issue \<in> set issues \<and>
      (\<exists>fc. changesByFileName (FilePath issue) = Some fc \<and>
        (\<exists>c\<in>set (Changes fc). Start c \<le> Line (Pos issue) \<and> Line (Pos issue) \<le> End c))"
    by (simp add: set_select hits_pos_iff in_range_def)
  have incl: "issue \<in> set (select issues changesByFileName)"
    if "issue \<in> set issues" "changesByFileName (FilePath issue) = Some fc" "c \<in> set (Changes fc)"
      "Start c \<le> End c" "Line (Pos issue) = Start c \<or> Line (Pos issue) = End c"
  proof -
    from that(4,5) have "Start c \<le> Line (Pos issue) \<and> Line (Pos issue) \<le> End c" by auto
    with that(1,2,3) show ?thesis unfolding iff by blast
  qed
  have excl: "issue \<notin> set (select issues changesByFileName)"
    if "changesByFileName (FilePath issue) = Some fc"
      "\<forall>c\<in>set (Changes fc). Line (Pos issue) = End c + 1"
  proof -
    from that(2) have "\<forall>c\<in>set (Changes fc). \<not> Line (Pos issue) \<le> End c" by auto
    with that(1) show ?thesis unfolding iff by auto
  qed
  from iff incl excl show ?thesis by blast
qed

theorem C1_witness:
  "issue_at ''a.go'' 8 \<in> set (select [issue_at ''a.go'' 8, issue_at ''a.go'' 11] (index_of ''a.go'' [(8, 10)]))
   \<and> issue_at ''a.go'' 10 \<in> set (select [issue_at ''a.go'' 10] (index_of ''a.go'' [(8, 10)]))
   \<and> issue_at ''a.go'' 11 \<notin> set (select [issue_at ''a.go'' 8, issue_at ''a.go'' 11] (index_of ''a.go'' [(8, 10)]))"
  using
    C1_selected_iff_in_some_range [of "issue_at ''a.go'' 8" "[issue_at ''a.go'' 8, issue_at ''a.go'' 11]"
      "index_of ''a.go'' [(8, 10)]" "\<lparr>Changes = [\<lparr>Start = 8, End = 10\<rparr>], Path = ''a.go''\<rparr>"
      "\<lparr>Start = 8, End = 10\<rparr>"]
    C1_selected_iff_in_some_range [of "issue_at ''a.go'' 10" "[issue_at ''a.go'' 10]"
      "index_of ''a.go'' [(8, 10)]" "\<lparr>Changes = [\<lparr>Start = 8, End = 10\<rparr>], Path = ''a.go''\<rparr>"
      "\<lparr>Start = 8, End = 10\<rparr>"]
    C1_selected_iff_in_some_range [of "issue_at ''a.go'' 11" "[issue_at ''a.go'' 8, issue_at ''a.go'' 11]"
      "index_of ''a.go'' [(8, 10)]" "\<lparr>Changes = [\<lparr>Start = 8, End = 10\<rparr>], Path = ''a.go''\<rparr>"
      "\<lparr>Start = 8, End = 10\<rparr>"]
  by (simp add: example_defs)

text \<open>
  Claim C10.  An issue whose file path is a key of the change index and whose line lies in
  \<open>k \<ge> 1\<close> of that file's ranges is printed \<open>k\<close> times in a row at its place in the output,
  once for each matching range; over the whole output it occurs \<open>k\<close> times for each of its
  occurrences in the input.
\<close>

theorem C10_once_per_matching_range:
  assumes "changesByFileName (FilePath issue) = Some fc"
    and "k = length (filter (\<lambda>c. Start c \<le> Line (Pos issue) \<and> Line (Pos issue) \<le> End c) (Changes fc))"
    and "1 \<le> k"
  shows "select (before @ issue # after) changesByFileName =
           select before changesByFileName @ replicate k issue @ select after changesByFileName
         \<and> count_list (select issues changesByFileName) issue = count_list issues issue * k"
proof -
  have "hits changesByFileName issue = k"
    using assms(1,2) by (simp add: hits_def in_range_fun)
  then show ?thesis
    by (simp add: select_append select_Cons count_select)
qed

theorem C10_witness:
  "index_of ''a.go'' [(8, 10), (10, 10)] (FilePath (issue_at ''a.go'' 10))
     = Some \<lparr>Changes = [\<lparr>Start = 8, End = 10\<rparr>, \<lparr>Start = 10, End = 10\<rparr>], Path = ''a.go''\<rparr>
   \<and> select ([issue_at ''a.go'' 9] @ issue_at ''a.go'' 10 # [issue_at ''b.go'' 10])
         (index_of ''a.go'' [(8, 10), (10, 10)])
       = [issue_at ''a.go'' 9, issue_at ''a.go'' 10, issue_at ''a.go'' 10]"
  using C10_once_per_matching_range [of "index_of ''a.go'' [(8, 10), (10, 10)]" "issue_at ''a.go'' 10"
      "\<lparr>Changes = [\<lparr>Start = 8, End = 10\<rparr>, \<lparr>Start = 10, End = 10\<rparr>], Path = ''a.go''\<rparr>" 2
      "[issue_at ''a.go'' 9]" "[issue_at ''b.go'' 10]" "[]"]
  by (simp add: example_defs)

text \<open>
  Claim C5.  No printed issue has a file path outside the keys of the change index.  An issue
  of such an untracked file contributes nothing to the output and leaves the printing of the
  issues before and after it as it is; the selection loop has no error path (\<open>select\<close> is a
  total function into lists of issues), so removing the untracked issues beforehand changes
  nothing.
\<close>

theorem C5_untracked_files_dropped:
  "(\<forall>i\<in>set (select issues changesByFileName). FilePath i \<in> dom changesByFileName)
   \<and> (changesByFileName (FilePath issue) = None \<longrightarrow>
        select (before @ issue # after) changesByFileName =
          select before changesByFileName @ select after changesByFileName)
   \<and> select (filter (\<lambda>i. FilePath i \<in> dom changesByFileName) issues) changesByFileName =
        select issues changesByFileName"
proof -
  have a: "\<forall>i\<in>set (select issues changesByFileName). FilePath i \<in> dom changesByFileName"
    by (auto simp: set_select hits_pos_iff)
  have b: "select (before @ issue # after) changesByFileName =
          select before changesByFileName @ select after changesByFileName"
    if "changesByFileName (FilePath issue) = None"
    using that by (simp add: select_append select_Cons hits_def)
  have c: "select (filter (\<lambda>i. FilePath i \<in> dom changesByFileName) issues) changesByFileName =
        select issues changesByFileName"
  proof (induction issues)
    case Nil show ?case by simp
  next
    case (Cons i issues)
    show ?case
    proof (cases "changesByFileName (FilePath i)")
      case None
      then have "hits changesByFileName i = 0" by (simp add: hits_def)
      with None Cons show ?thesis by (simp add: select_Cons domIff)
    next
      case (Some fc)
      with Cons show ?thesis by (simp add: select_Cons domIff)
    qed
  qed
  from a b c show ?thesis by blast
qed

theorem C5_witness:
  "index_of ''a.go'' [(10, 15)] (FilePath (issue_at ''b.go'' 5)) = None
   \<and> select ([issue_at ''a.go'' 12, issue_at ''a.go'' 99] @ issue_at ''b.go'' 5 # [])
        (index_of ''a.go'' [(10, 15)]) = [issue_at ''a.go'' 12]
   \<and> list_all (\<lambda>i. FilePath i \<in> dom (index_of ''a.go'' [(10, 15)]))
        (select [issue_at ''a.go'' 12, issue_at ''a.go'' 99, issue_at ''b.go'' 5]
           (index_of ''a.go'' [(10, 15)]))"
  using C5_untracked_files_dropped [of "[issue_at ''a.go'' 12, issue_at ''a.go'' 99, issue_at ''b.go'' 5]"
      "index_of ''a.go'' [(10, 15)]" "issue_at ''b.go'' 5" "[issue_at ''a.go'' 12, issue_at ''a.go'' 99]" "[]"]
  by (simp add: example_defs)

text \<open>
  Claim C4 fails where an issue lies in two ranges of its file.  With \<open>git diff -U0\<close> the
  hunk headers \<open>@@ -8,2 +8,2 @@\<close> and \<open>@@ -11,1 +10,0 @@\<close> of one file give the ranges
  \<open>{8, 10}\<close> and \<open>{10, 10}\<close>; an issue on line 10 is then printed twice, so the output is
  not a subsequence of the input, and filtering the output again prints it four times.
\<close>

theorem C4_counterexample:
  "\<not> subseq (select [issue_at ''a.go'' 10] (index_of ''a.go'' [(8, 10), (10, 10)])) [issue_at ''a.go'' 10]
   \<and> select (select [issue_at ''a.go'' 10] (index_of ''a.go'' [(8, 10), (10, 10)]))
        (index_of ''a.go'' [(8, 10), (10, 10)])
      \<noteq> select [issue_at ''a.go'' 10] (index_of ''a.go'' [(8, 10), (10, 10)])"
  by (simp add: example_defs)

text \<open>
  Claim C4, amended.  The output is the input in input order with every issue repeated once
  for each matching range of its file.  Where no input issue lies in more than one range of
  its file, the output is the sublist of the issues with a matching range, hence a
  subsequence of the input, and filtering it again with the same index returns it unchanged.
\<close>

theorem C4_order_kept_subsequence_when_single_hit:
  "select issues changesByFileName =
     concat (map (\<lambda>i. replicate (hits changesByFileName i) i) issues)
   \<and> ((\<forall>i\<in>set issues. hits changesByFileName i \<le> 1) \<longrightarrow>
        select issues changesByFileName = filter (\<lambda>i. hits changesByFileName i = 1) issues
        \<and> subseq (select issues changesByFileName) issues
        \<and> select (select issues changesByFileName) changesByFileName = select issues changesByFileName)"
proof -
  have "select issues changesByFileName = filter (\<lambda>i. hits changesByFileName i = 1) issues
        \<and> subseq (select issues changesByFileName) issues
        \<and> select (select issues changesByFileName) changesByFileName = select issues changesByFileName"
    if h: "\<forall>i\<in>set issues. hits changesByFileName i \<le> 1"
  proof -
    let ?P = "\<lambda>i. 0 < hits changesByFileName i"
    have s: "select issues changesByFileName = filter ?P issues"
      using h by (rule select_filter_le1)
    have "\<forall>i\<in>set (filter ?P issues). hits changesByFileName i \<le> 1"
      using h by simp
    then have "select (filter ?P issues) changesByFileName = filter ?P (filter ?P issues)"
      by (rule select_filter_le1)
    then have idem: "select (select issues changesByFileName) changesByFileName = select issues changesByFileName"
      by (simp add: s)
    have "filter ?P issues = filter (\<lambda>i. hits changesByFileName i = 1) issues"
      using h by (intro filter_cong) auto
    with s idem show ?thesis by simp
  qed
  moreover have "select issues changesByFileName =
     concat (map (\<lambda>i. replicate (hits changesByFileName i) i) issues)"
    by (rule select_concat)
  ultimately show ?thesis by blast
qed

theorem C4_witness:
  "list_all (\<lambda>i. hits (index_of ''a.go'' [(10, 15)]) i \<le> 1)
     [issue_at ''a.go'' 12, issue_at ''a.go'' 99, issue_at ''b.go'' 5]
   \<and> select [issue_at ''a.go'' 12, issue_at ''a.go'' 99, issue_at ''b.go'' 5] (index_of ''a.go'' [(10, 15)])
       = [issue_at ''a.go'' 12]
   \<and> select (select [issue_at ''a.go'' 12, issue_at ''a.go'' 99, issue_at ''b.go'' 5] (index_of ''a.go'' [(10, 15)]))
        (index_of ''a.go'' [(10, 15)]) = [issue_at ''a.go'' 12]"
  using C4_order_kept_subsequence_when_single_hit
    [of "[issue_at ''a.go'' 12, issue_at ''a.go'' 99, issue_at ''b.go'' 5]" "index_of ''a.go'' [(10, 15)]"]
  by (simp add: example_defs hits_def in_range_def)

section \<open>Properties of \<open>findChangesByHunkHeader\<close>\<close>

lemma parse_ok:
  "\<forall>m\<in>set (FindAllStringSubmatch h). fields_ok m \<Longrightarrow>
   findChangesByHunkHeader h = Inr (map range_of (FindAllStringSubmatch h))"
  unfolding findChangesByHunkHeader_def by (simp add: ranges_loop_ok)

lemma parse_fail:
  "\<not> (\<forall>m\<in>set (FindAllStringSubmatch h). fields_ok m) \<Longrightarrow>
   \<exists>e. findChangesByHunkHeader h = Inl e
      \<and> (\<exists>m\<in>set (FindAllStringSubmatch h).
            ParseInt (fst (snd m)) = Inl e \<or> ParseInt (snd (snd m)) = Inl e)"
  unfolding findChangesByHunkHeader_def by (rule ranges_loop_fail)

lemma parse_Inr_iff:
  "findChangesByHunkHeader h = Inr rs \<longleftrightarrow>
     (\<forall>m\<in>set (FindAllStringSubmatch h). fields_ok m) \<and> rs = map range_of (FindAllStringSubmatch h)"
proof (cases "\<forall>m\<in>set (FindAllStringSubmatch h). fields_ok m")
  case True
  from parse_ok [OF True] True show ?thesis by auto
next
  case False
  from parse_fail [OF False] False show ?thesis by auto
qed

lemma parse_Inl_iff:
  "(\<exists>e. findChangesByHunkHeader h = Inl e) \<longleftrightarrow> \<not> (\<forall>m\<in>set (FindAllStringSubmatch h). fields_ok m)"
proof (cases "\<forall>m\<in>set (FindAllStringSubmatch h). fields_ok m")
  case True
  from parse_ok [OF True] True show ?thesis by simp
next
  case False
  from parse_fail [OF False] False show ?thesis by blast
qed

lemmas parse_eval = findChangesByHunkHeader_def FindAllStringSubmatch.simps match_here_def
  is_digit_def ParseInt_def ParseUint_def digit_val_def maxUint64_def Let_def

text \<open>
  Claim C8.  \<open>findChangesByHunkHeader\<close> returns an error exactly when \<open>strconv.ParseInt\<close>
  fails on a field captured by some match.  The error returned is the error of such a field
  and the caller's loop over the headers returns it in turn; on success every captured field
  parsed and the result has one range for each match.  A captured field is a non-empty run
  of digits, so it fails to parse exactly when its value is \<open>2 ^ 63\<close> or more.
\<close>

theorem C8_fails_exactly_on_unparsable_field:
  "((\<exists>e. findChangesByHunkHeader h = Inl e) \<longleftrightarrow>
      (\<exists>m\<in>set (FindAllStringSubmatch h).
         isl (ParseInt (fst (snd m))) \<or> isl (ParseInt (snd (snd m)))))
   \<and> (findChangesByHunkHeader h = Inl err \<longrightarrow>
        (\<exists>m\<in>set (FindAllStringSubmatch h).
           ParseInt (fst (snd m)) = Inl err \<or> ParseInt (snd (snd m)) = Inl err)
        \<and> headers_loop (h # hs) changes = Inl err)
   \<and> (findChangesByHunkHeader h = Inr rs \<longrightarrow>
        rs = map range_of (FindAllStringSubmatch h)
        \<and> (\<forall>m\<in>set (FindAllStringSubmatch h).
              \<not> isl (ParseInt (fst (snd m))) \<and> \<not> isl (ParseInt (snd (snd m)))))
   \<and> (\<forall>m\<in>set (FindAllStringSubmatch h).
        (isl (ParseInt (fst (snd m))) \<longleftrightarrow> 2 ^ 63 \<le> decimal (fst (snd m)))
        \<and> (isl (ParseInt (snd (snd m))) \<longleftrightarrow> 2 ^ 63 \<le> decimal (snd (snd m))))"
proof -
  have ok: "fields_ok m \<longleftrightarrow> \<not> isl (ParseInt (fst (snd m))) \<and> \<not> isl (ParseInt (snd (snd m)))" for m
    by (cases m) (simp add: fields_ok_def)
  have a: "(\<exists>e. findChangesByHunkHeader h = Inl e) \<longleftrightarrow>
      (\<exists>m\<in>set (FindAllStringSubmatch h).
         isl (ParseInt (fst (snd m))) \<or> isl (ParseInt (snd (snd m))))"
    unfolding parse_Inl_iff by (simp add: ok)
  have b: "(\<exists>m\<in>set (FindAllStringSubmatch h).
           ParseInt (fst (snd m)) = Inl err \<or> ParseInt (snd (snd m)) = Inl err)
        \<and> headers_loop (h # hs) changes = Inl err"
    if f: "findChangesByHunkHeader h = Inl err"
  proof -
    from f have "\<not> (\<forall>m\<in>set (FindAllStringSubmatch h). fields_ok m)"
      using parse_Inl_iff by blast
    from parse_fail [OF this] f
    have "\<exists>m\<in>set (FindAllStringSubmatch h).
           ParseInt (fst (snd m)) = Inl err \<or> ParseInt (snd (snd m)) = Inl err"
      by auto
    moreover from f have "headers_loop (h # hs) changes = Inl err" by simp
    ultimately show ?thesis by blast
  qed
  have c: "rs = map range_of (FindAllStringSubmatch h)
        \<and> (\<forall>m\<in>set (FindAllStringSubmatch h).
              \<not> isl (ParseInt (fst (snd m))) \<and> \<not> isl (ParseInt (snd (snd m))))"
    if "findChangesByHunkHeader h = Inr rs"
    using that unfolding parse_Inr_iff by (simp add: ok)
  have d: "\<forall>m\<in>set (FindAllStringSubmatch h).
        (isl (ParseInt (fst (snd m))) \<longleftrightarrow> 2 ^ 63 \<le> decimal (fst (snd m)))
        \<and> (isl (ParseInt (snd (snd m))) \<longleftrightarrow> 2 ^ 63 \<le> decimal (snd (snd m)))"
  proof
    fix m assume m: "m \<in> set (FindAllStringSubmatch h)"
    obtain m0 m1 m2 where "m = (m0, m1, m2)" by (cases m) auto
    with m fields_ok_digits [of m0 m1 m2 h]
    show "(isl (ParseInt (fst (snd m))) \<longleftrightarrow> 2 ^ 63 \<le> decimal (fst (snd m)))
        \<and> (isl (ParseInt (snd (snd m))) \<longleftrightarrow> 2 ^ 63 \<le> decimal (snd (snd m)))"
      by simp
  qed
  from a b c d show ?thesis by blast
qed

lemma eval_parse_too_large:
  "findChangesByHunkHeader ''@@ -1,1 +9223372036854775808,1 @@'' = Inl (ErrRange ''9223372036854775808'')"
  by (simp add: parse_eval)

lemma eval_FindAll_12_5:
  "FindAllStringSubmatch ''@@ -10,3 +12,5 @@'' = [(''+12,5'', ''12'', ''5'')]"
  by (simp add: parse_eval)

lemma eval_ParseInt_12_5: "ParseInt ''12'' = Inr 12" "ParseInt ''5'' = Inr 5"
  by (simp_all add: parse_eval)

lemma eval_parse_12_5: "findChangesByHunkHeader ''@@ -10,3 +12,5 @@'' = Inr [[12, 17]]"
  by (simp add: findChangesByHunkHeader_def eval_FindAll_12_5 eval_ParseInt_12_5)

theorem C8_witness:
  "findChangesByHunkHeader ''@@ -1,1 +9223372036854775808,1 @@'' = Inl (ErrRange ''9223372036854775808'')
   \<and> headers_loop [''@@ -1,1 +9223372036854775808,1 @@'', ''@@ -1,1 +1,1 @@''] [] = Inl (ErrRange ''9223372036854775808'')
   \<and> findChangesByHunkHeader ''@@ -10,3 +12,5 @@'' = Inr [[12, 17]]
   \<and> FindAllStringSubmatch ''@@ -10,3 +12,5 @@'' = [(''+12,5'', ''12'', ''5'')]
   \<and> \<not> isl (ParseInt ''12'') \<and> \<not> isl (ParseInt ''5'')"
  using
    C8_fails_exactly_on_unparsable_field [of "''@@ -1,1 +9223372036854775808,1 @@''"
      "ErrRange ''9223372036854775808''" "[''@@ -1,1 +1,1 @@'']" "[]" "[]"]
    C8_fails_exactly_on_unparsable_field [of "''@@ -10,3 +12,5 @@''"
      "ErrRange []" "[]" "[]" "[[12, 17]]"]
  by (simp add: eval_parse_too_large eval_parse_12_5 eval_FindAll_12_5 eval_ParseInt_12_5)

lemma eval_parse_zero: "findChangesByHunkHeader ''@@ -1,5 +0,0 @@'' = Inr [[0, 0]]"
  by (simp add: parse_eval)

lemma eval_parse_wraps:
  "findChangesByHunkHeader ''@@ -1,1 +9223372036854775807,1 @@''
     = Inr [[9223372036854775807, - 9223372036854775808]]"
  by (simp add: parse_eval)

text \<open>
  Claim C6 fails in both of its parts.  The hunk header of a deleted file has the new-file
  side \<open>+0,0\<close> and gives a range with \<open>start = 0\<close>; and where \<open>start + amount\<close> exceeds the
  largest \<open>int64\<close> the addition wraps around and the end is negative, below the start.
\<close>

theorem C6_counterexample:
  "findChangesByHunkHeader ''@@ -1,5 +0,0 @@'' = Inr [[0, 0]]
   \<and> \<not> (1::int) \<le> [0, 0] ! 0
   \<and> findChangesByHunkHeader ''@@ -1,1 +9223372036854775807,1 @@''
         = Inr [[9223372036854775807, - 9223372036854775808]]
   \<and> \<not> [9223372036854775807, - 9223372036854775808 :: int] ! 0
         \<le> [9223372036854775807, - 9223372036854775808] ! 1"
  by (simp add: eval_parse_zero eval_parse_wraps)

lemma parsed_range:
  assumes "findChangesByHunkHeader h = Inr rs" "r \<in> set rs"
  obtains m0 m1 m2 where "(m0, m1, m2) \<in> set (FindAllStringSubmatch h)"
    "decimal m1 < 2 ^ 63" "decimal m2 < 2 ^ 63"
    "r = [int (decimal m1), sint (word_of_nat (decimal m1) + word_of_nat (decimal m2) :: 64 word)]"
proof -
  from assms(1) have ok: "\<forall>m\<in>set (FindAllStringSubmatch h). fields_ok m"
    and rs: "rs = map range_of (FindAllStringSubmatch h)"
    unfolding parse_Inr_iff by simp_all
  from assms(2) rs obtain m where m: "m \<in> set (FindAllStringSubmatch h)" and r: "r = range_of m"
    by auto
  obtain m0 m1 m2 where mm: "m = (m0, m1, m2)" by (cases m) auto
  from m mm have mem: "(m0, m1, m2) \<in> set (FindAllStringSubmatch h)" by simp
  from FindAll_captures [OF mem]
  have d: "m1 \<noteq> []" "list_all is_digit m1" "m2 \<noteq> []" "list_all is_digit m2" by simp_all
  from ok m mm have "\<not> isl (ParseInt m1)" "\<not> isl (ParseInt m2)" by (auto simp: fields_ok_def)
  with fields_ok_digits [OF mem] have fit: "decimal m1 < 2 ^ 63" "decimal m2 < 2 ^ 63"
    by (simp_all add: not_le)
  from range_of_digits [OF d fit] r mm
  have "r = [int (decimal m1), sint (word_of_nat (decimal m1) + word_of_nat (decimal m2) :: 64 word)]"
    by simp
  with mem fit show ?thesis by (rule that)
qed

text \<open>
  Claim C6, amended.  Every range returned by \<open>findChangesByHunkHeader\<close> has two elements
  and a start of at least 0; and where for every match of the header the sum of the two
  captured numbers is below \<open>2 ^ 63\<close>, its end is not below its start.
\<close>

theorem C6_start_nonnegative_end_after_start_without_overflow:
  assumes "findChangesByHunkHeader h = Inr rs" and "r \<in> set rs"
  shows "length r = 2 \<and> 0 \<le> r ! 0
         \<and> ((\<forall>m\<in>set (FindAllStringSubmatch h). decimal (fst (snd m)) + decimal (snd (snd m)) < 2 ^ 63)
              \<longrightarrow> r ! 0 \<le> r ! 1)"
proof -
  from assms obtain m0 m1 m2 where mem: "(m0, m1, m2) \<in> set (FindAllStringSubmatch h)"
    and r: "r = [int (decimal m1), sint (word_of_nat (decimal m1) + word_of_nat (decimal m2) :: 64 word)]"
    by (rule parsed_range)
  have "r ! 0 \<le> r ! 1"
    if "\<forall>m\<in>set (FindAllStringSubmatch h). decimal (fst (snd m)) + decimal (snd (snd m)) < 2 ^ 63"
  proof -
    from that mem have "decimal m1 + decimal m2 < 2 ^ 63" by force
    from sint_word_of_nat_add [OF this] show ?thesis by (simp add: r)
  qed
  then show ?thesis by (simp add: r)
qed

theorem C6_witness:
  "findChangesByHunkHeader ''@@ -10,3 +12,5 @@'' = Inr [[12, 17]]
   \<and> [12, 17] \<in> set [[12, 17 :: int]]
   \<and> list_all (\<lambda>m. decimal (fst (snd m)) + decimal (snd (snd m)) < 2 ^ 63)
        (FindAllStringSubmatch ''@@ -10,3 +12,5 @@'')
   \<and> length [12, 17 :: int] = 2 \<and> (0::int) \<le> [12, 17] ! 0 \<and> [12, 17 :: int] ! 0 \<le> [12, 17] ! 1"
  using C6_start_nonnegative_end_after_start_without_overflow
    [of "''@@ -10,3 +12,5 @@''" "[[12, 17]]" "[12, 17]"]
  by (simp add: eval_parse_12_5 eval_FindAll_12_5 decimal_def digit_val_def)

lemma digits_no_plus: "list_all is_digit ds \<Longrightarrow> CHR ''+'' \<notin> set ds"
  by (auto simp: list_all_iff)

lemma FindAll_padded_block:
  assumes "CHR ''+'' \<notin> set pre"
    and "g1 \<noteq> []" "list_all is_digit g1" "g2 \<noteq> []" "list_all is_digit g2"
    and "rest = [] \<or> \<not> is_digit (hd rest)"
  shows "FindAllStringSubmatch (pre @ ''+'' @ g1 @ '','' @ g2 @ rest) =
           (''+'' @ g1 @ '','' @ g2, g1, g2) # FindAllStringSubmatch rest"
proof -
  have "FindAllStringSubmatch (pre @ ''+'' @ g1 @ '','' @ g2 @ rest)
      = FindAllStringSubmatch (CHR ''+'' # g1 @ CHR '','' # g2 @ rest)"
    using FindAll_no_plus_prefix [OF assms(1)] by simp
  also have "\<dots> = (CHR ''+'' # g1 @ CHR '','' # g2, g1, g2) # FindAllStringSubmatch rest"
    by (rule FindAll_block [OF assms(2-6)])
  finally show ?thesis by simp
qed

lemma range_of_fits:
  assumes "g1 \<noteq> []" "list_all is_digit g1" "g2 \<noteq> []" "list_all is_digit g2"
    and "decimal g1 + decimal g2 < 2 ^ 63"
  shows "fields_ok (w, g1, g2)"
    and "range_of (w, g1, g2) = [int (decimal g1), int (decimal g1) + int (decimal g2)]"
proof -
  from assms(5) have fit: "decimal g1 < 2 ^ 63" "decimal g2 < 2 ^ 63" by simp_all
  show "fields_ok (w, g1, g2)"
    using fit by (simp add: fields_ok_def ParseInt_digits [OF assms(1,2)] ParseInt_digits [OF assms(3,4)])
  show "range_of (w, g1, g2) = [int (decimal g1), int (decimal g1) + int (decimal g2)]"
    using range_of_digits [OF assms(1-4) fit] sint_word_of_nat_add [OF assms(5)] by simp
qed

text \<open>
  Claim C2, amended.  For a header \<open>@@ -a,b +c,d @@\<close> of non-empty digit runs with
  \<open>c + d < 2 ^ 63\<close> the parser returns exactly the one range \<open>{c, c + d}\<close>.  For a header
  with two blocks \<open>+c,d\<close> and \<open>+c',d'\<close> (the text before, between and after them free of
  plus signs, the text after a block not starting with a digit) and both sums below
  \<open>2 ^ 63\<close>, it returns exactly the two ranges, the left block's first.
\<close>

theorem C2_one_range_per_plus_block_within_int64:
  assumes digits: "\<forall>g\<in>{a, b, c, d, c', d'}. g \<noteq> [] \<and> list_all is_digit g"
    and fits: "decimal c + decimal d < 2 ^ 63" "decimal c' + decimal d' < 2 ^ 63"
    and pads: "CHR ''+'' \<notin> set pre" "CHR ''+'' \<notin> set mid" "CHR ''+'' \<notin> set post"
      "mid = [] \<or> \<not> is_digit (hd mid)" "post = [] \<or> \<not> is_digit (hd post)"
  shows "findChangesByHunkHeader (''@@ -'' @ a @ '','' @ b @ '' +'' @ c @ '','' @ d @ '' @@'')
           = Inr [[int (decimal c), int (decimal c) + int (decimal d)]]
         \<and> findChangesByHunkHeader (pre @ ''+'' @ c @ '','' @ d @ mid @ ''+'' @ c' @ '','' @ d' @ post)
           = Inr [[int (decimal c), int (decimal c) + int (decimal d)],
                  [int (decimal c'), int (decimal c') + int (decimal d')]]"
proof -
  from digits have a: "list_all is_digit a" and b: "list_all is_digit b"
    and c: "c \<noteq> []" "list_all is_digit c" and d: "d \<noteq> []" "list_all is_digit d"
    and c': "c' \<noteq> []" "list_all is_digit c'" and d': "d' \<noteq> []" "list_all is_digit d'"
    by simp_all
  note r1 = range_of_fits [OF c d fits(1)]
  note r2 = range_of_fits [OF c' d' fits(2)]
  have one: "findChangesByHunkHeader (''@@ -'' @ a @ '','' @ b @ '' +'' @ c @ '','' @ d @ '' @@'')
           = Inr [[int (decimal c), int (decimal c) + int (decimal d)]]"
  proof -
    have np: "CHR ''+'' \<notin> set (''@@ -'' @ a @ '','' @ b @ '' '')"
      using digits_no_plus [OF a] digits_no_plus [OF b] by simp
    have "FindAllStringSubmatch ((''@@ -'' @ a @ '','' @ b @ '' '') @ ''+'' @ c @ '','' @ d @ '' @@'')
        = (''+'' @ c @ '','' @ d, c, d) # FindAllStringSubmatch '' @@''"
      by (rule FindAll_padded_block [OF np c d]) simp
    moreover have "FindAllStringSubmatch '' @@'' = []"
      by (rule FindAll_no_plus) simp
    ultimately have fa: "FindAllStringSubmatch (''@@ -'' @ a @ '','' @ b @ '' +'' @ c @ '','' @ d @ '' @@'')
        = [(''+'' @ c @ '','' @ d, c, d)]" by simp
    show ?thesis
      by (subst parse_ok) (simp_all only: fa r1 list.set list.map ball_simps)
  qed
  have two: "findChangesByHunkHeader (pre @ ''+'' @ c @ '','' @ d @ mid @ ''+'' @ c' @ '','' @ d' @ post)
           = Inr [[int (decimal c), int (decimal c) + int (decimal d)],
                  [int (decimal c'), int (decimal c') + int (decimal d')]]"
  proof -
    let ?rest = "mid @ ''+'' @ c' @ '','' @ d' @ post"
    have hd: "?rest = [] \<or> \<not> is_digit (hd ?rest)"
      using pads(4) by (cases mid) simp_all
    have "FindAllStringSubmatch (pre @ ''+'' @ c @ '','' @ d @ ?rest)
        = (''+'' @ c @ '','' @ d, c, d) # FindAllStringSubmatch ?rest"
      by (rule FindAll_padded_block [OF pads(1) c d hd])
    moreover have "FindAllStringSubmatch ?rest = (''+'' @ c' @ '','' @ d', c', d') # FindAllStringSubmatch post"
      by (rule FindAll_padded_block [OF pads(2) c' d' pads(5)])
    moreover have "FindAllStringSubmatch post = []"
      by (rule FindAll_no_plus [OF pads(3)])
    ultimately have fa: "FindAllStringSubmatch (pre @ ''+'' @ c @ '','' @ d @ mid @ ''+'' @ c' @ '','' @ d' @ post)
        = [(''+'' @ c @ '','' @ d, c, d), (''+'' @ c' @ '','' @ d', c', d')]" by simp
    show ?thesis
      by (subst parse_ok) (simp_all only: fa r1 r2 list.set list.map ball_simps)
  qed
  from one two show ?thesis by (rule conjI)
qed

text \<open>
  Claim C2 fails on digit runs beyond \<open>int64\<close>: for \<open>c = 2 ^ 63\<close> the parser returns the
  range error of \<open>strconv.ParseInt\<close> and no range, and for \<open>c = 2 ^ 63 - 1\<close>, \<open>d = 1\<close> the
  sum wraps around, so the end is \<open>- 2 ^ 63\<close> and not \<open>c + d\<close>.
\<close>

theorem C2_counterexample:
  "findChangesByHunkHeader ''@@ -1,1 +9223372036854775808,1 @@'' = Inl (ErrRange ''9223372036854775808'')
   \<and> findChangesByHunkHeader ''@@ -1,1 +9223372036854775808,1 @@''
        \<noteq> Inr [[9223372036854775808, 9223372036854775808 + 1]]
   \<and> findChangesByHunkHeader ''@@ -1,1 +9223372036854775807,1 @@''
        = Inr [[9223372036854775807, - 9223372036854775808]]
   \<and> findChangesByHunkHeader ''@@ -1,1 +9223372036854775807,1 @@''
        \<noteq> Inr [[9223372036854775807, 9223372036854775807 + 1]]"
  by (simp add: eval_parse_too_large eval_parse_wraps)

lemma eval_decimal: "decimal ''10'' = 10" "decimal ''3'' = 3" "decimal ''12'' = 12"
  "decimal ''5'' = 5" "decimal ''7'' = 7"
  by (simp_all add: decimal_def digit_val_def)

theorem C2_witness:
  "findChangesByHunkHeader ''@@ -10,3 +12,5 @@'' = Inr [[12, 17]]
   \<and> findChangesByHunkHeader ''@@@ -1,5 -3,4 +12,5 +7,3 @@@'' = Inr [[12, 17], [7, 10]]"
  using C2_one_range_per_plus_block_within_int64
    [of "''10''" "''3''" "''12''" "''5''" "''7''" "''3''" "''@@@ -1,5 -3,4 ''" "'' ''" "'' @@@''"]
  by (simp add: eval_decimal is_digit_def)

lemma FindAll_empty_iff:
  "FindAllStringSubmatch s = [] \<longleftrightarrow> (\<forall>i<length s. match_here (drop i s) = None)"
proof (induction s)
  case Nil show ?case by (simp add: FindAll_Nil)
next
  case (Cons c s)
  have split: "(\<forall>i<length (c # s). match_here (drop i (c # s)) = None) \<longleftrightarrow>
      match_here (c # s) = None \<and> (\<forall>i<length s. match_here (drop i s) = None)"
    by (auto simp: less_Suc_eq_0_disj)
  show ?case
  proof (cases "match_here (c # s)")
    case None
    then have "FindAllStringSubmatch (c # s) = FindAllStringSubmatch s" by (rule FindAll_skip)
    with None Cons show ?thesis unfolding split by simp
  next
    case (Some r)
    obtain w g1 g2 rest where "r = (w, g1, g2, rest)" by (cases r) auto
    with Some have "match_here (c # s) = Some (w, g1, g2, rest)" by simp
    then have "FindAllStringSubmatch (c # s) \<noteq> []" by (simp add: FindAll_match)
    with Some show ?thesis unfolding split by simp
  qed
qed

lemma parse_empty_iff: "findChangesByHunkHeader h = Inr [] \<longleftrightarrow> FindAllStringSubmatch h = []"
  unfolding parse_Inr_iff by auto

lemma match_here_single_number:
  assumes "list_all is_digit n" "post = [] \<or> (\<not> is_digit (hd post) \<and> hd post \<noteq> CHR '','')"
  shows "match_here (CHR ''+'' # n @ post) = None"
proof -
  from assms(2) have "post = [] \<or> \<not> is_digit (hd post)" by blast
  note td = takeWhile_digits_append [OF assms(1) this]
  have "p \<noteq> CHR '',''" if "post = p # ps" for p ps
    using assms(2) that by simp
  then show ?thesis
    by (simp add: match_here_def Let_def td split: list.split)
qed

text \<open>
  Claim C3.  A header without a plus sign gives the empty range list and no error.  So does
  a header whose only plus sign is followed by a single number: a run of digits followed
  neither by a further digit nor by a comma (and no plus sign elsewhere).  In general the
  parser returns the empty list exactly when the pattern matches at no position of the
  header.
\<close>

theorem C3_no_plus_block_gives_no_range:
  "(CHR ''+'' \<notin> set h \<longrightarrow> findChangesByHunkHeader h = Inr [])
   \<and> (list_all is_digit n \<and> CHR ''+'' \<notin> set pre \<and> CHR ''+'' \<notin> set post
        \<and> (post = [] \<or> (\<not> is_digit (hd post) \<and> hd post \<noteq> CHR '',''))
      \<longrightarrow> findChangesByHunkHeader (pre @ ''+'' @ n @ post) = Inr [])
   \<and> (findChangesByHunkHeader h = Inr [] \<longleftrightarrow> (\<forall>i<length h. match_here (drop i h) = None))"
proof -
  have a: "findChangesByHunkHeader h = Inr []" if "CHR ''+'' \<notin> set h"
    using FindAll_no_plus [OF that] by (simp add: parse_empty_iff)
  have b: "findChangesByHunkHeader (pre @ ''+'' @ n @ post) = Inr []"
    if n: "list_all is_digit n" and pre: "CHR ''+'' \<notin> set pre" and post: "CHR ''+'' \<notin> set post"
      and hd: "post = [] \<or> (\<not> is_digit (hd post) \<and> hd post \<noteq> CHR '','')"
  proof -
    have "FindAllStringSubmatch (pre @ ''+'' @ n @ post) = FindAllStringSubmatch (CHR ''+'' # n @ post)"
      using FindAll_no_plus_prefix [OF pre] by simp
    also have "\<dots> = FindAllStringSubmatch (n @ post)"
      by (rule FindAll_skip) (rule match_here_single_number [OF n hd])
    also have "\<dots> = []"
      using digits_no_plus [OF n] post by (intro FindAll_no_plus) simp
    finally show ?thesis by (simp add: parse_empty_iff)
  qed
  have c: "findChangesByHunkHeader h = Inr [] \<longleftrightarrow> (\<forall>i<length h. match_here (drop i h) = None)"
    by (simp only: parse_empty_iff FindAll_empty_iff)
  from a b c show ?thesis by blast
qed

theorem C3_witness:
  "findChangesByHunkHeader ''@@ -1,5 @@'' = Inr []
   \<and> findChangesByHunkHeader ''@@ -1,5 +7 @@'' = Inr []
   \<and> findChangesByHunkHeader ''@@ -3 +12 @@'' = Inr []"
  using C3_no_plus_block_gives_no_range [of "''@@ -1,5 @@''" "''7''" "''@@ -1,5 ''" "'' @@''"]
    C3_no_plus_block_gives_no_range [of "''@@ -1,5 @@''" "''12''" "''@@ -3 ''" "'' @@''"]
  by (simp add: is_digit_def)

section \<open>Properties of \<open>findChanges\<close> and of \<open>main\<close>\<close>

lemma positions_loop_ok:
  "\<forall>p\<in>set ps. 2 \<le> length p \<Longrightarrow>
   positions_loop ps changes = Inr (changes @ map (\<lambda>p. \<lparr>Start = p ! 0, End = p ! 1\<rparr>) ps)"
  by (induction ps arbitrary: changes) simp_all

lemma parsed_length2:
  assumes "findChangesByHunkHeader h = Inr ps"
  shows "\<forall>p\<in>set ps. 2 \<le> length p"
proof
  fix p assume "p \<in> set ps"
  with assms obtain x y where "p = [x, y]" by (rule parsed_range)
  then show "2 \<le> length p" by simp
qed

lemma headers_loop_step:
  assumes "findChangesByHunkHeader h = Inr ps"
  shows "headers_loop (h # hs) changes = headers_loop hs (changes @ changes_of_header h)"
  using assms positions_loop_ok [OF parsed_length2 [OF assms]]
  by (simp add: changes_of_header_def)

lemma headers_loop_ok:
  "list_all (\<lambda>h. \<not> isl (findChangesByHunkHeader h)) hs \<Longrightarrow>
   headers_loop hs changes = Inr (changes @ concat (map changes_of_header hs))"
proof (induction hs arbitrary: changes)
  case Nil show ?case by simp
next
  case (Cons h hs)
  then obtain ps where ps: "findChangesByHunkHeader h = Inr ps"
    by (cases "findChangesByHunkHeader h") auto
  from Cons.prems have rest: "list_all (\<lambda>h. \<not> isl (findChangesByHunkHeader h)) hs" by simp
  have "headers_loop (h # hs) changes = headers_loop hs (changes @ changes_of_header h)"
    by (rule headers_loop_step [OF ps])
  also have "\<dots> = Inr ((changes @ changes_of_header h) @ concat (map changes_of_header hs))"
    by (rule Cons.IH [OF rest])
  finally show ?case by simp
qed

lemma headers_loop_fail:
  "\<not> list_all (\<lambda>h. \<not> isl (findChangesByHunkHeader h)) hs \<Longrightarrow>
   \<exists>e. headers_loop hs changes = Inl e"
proof (induction hs arbitrary: changes)
  case Nil then show ?case by simp
next
  case (Cons h hs)
  show ?case
  proof (cases "findChangesByHunkHeader h")
    case (Inl e) then show ?thesis by simp
  next
    case (Inr ps)
    with Cons.prems have "\<not> list_all (\<lambda>h. \<not> isl (findChangesByHunkHeader h)) hs" by simp
    from Cons.IH [OF this] show ?thesis by (simp only: headers_loop_step [OF Inr])
  qed
qed

lemma files_loop_step:
  assumes "file_ok sh pwd cmd file"
  shows "files_loop sh pwd cmd (file # rest) fileChanges =
     files_loop sh pwd cmd rest
       (fileChanges @ (if changes_of_file sh pwd cmd file = [] then []
                       else [\<lparr>Changes = changes_of_file sh pwd cmd file, Path = file\<rparr>]))"
proof -
  from assms obtain hs where hs: "findHunkHeadersOfFile sh pwd cmd file = Inr hs"
    unfolding file_ok_def by (cases "findHunkHeadersOfFile sh pwd cmd file") auto
  then have ho: "headers_of sh pwd cmd file = hs" by (simp add: headers_of_def)
  with assms have "list_all (\<lambda>h. \<not> isl (findChangesByHunkHeader h)) hs"
    by (simp add: file_ok_def)
  from headers_loop_ok [OF this, of "[]"]
  have "headers_loop hs [] = Inr (changes_of_file sh pwd cmd file)"
    by (simp add: changes_of_file_def ho)
  with hs show ?thesis by simp
qed

lemma files_loop_step_fail:
  assumes "\<not> file_ok sh pwd cmd file"
  shows "\<exists>e. files_loop sh pwd cmd (file # rest) fileChanges = Inl e"
proof (cases "findHunkHeadersOfFile sh pwd cmd file")
  case (Inl e) then show ?thesis by simp
next
  case (Inr hs)
  then have "headers_of sh pwd cmd file = hs" by (simp add: headers_of_def)
  with assms Inr have "\<not> list_all (\<lambda>h. \<not> isl (findChangesByHunkHeader h)) hs"
    by (simp add: file_ok_def)
  from headers_loop_fail [OF this, of "[]"] obtain e where "headers_loop hs [] = Inl e" ..
  with Inr show ?thesis by simp
qed

lemma files_loop_ok:
  "\<forall>f\<in>set files. file_ok sh pwd cmd f \<Longrightarrow>
   files_loop sh pwd cmd files fileChanges =
     Inr (fileChanges @ map (\<lambda>f. \<lparr>Changes = changes_of_file sh pwd cmd f, Path = f\<rparr>)
                          (filter (\<lambda>f. changes_of_file sh pwd cmd f \<noteq> []) files))"
proof (induction files arbitrary: fileChanges)
  case Nil show ?case by simp
next
  case (Cons f files)
  then have f: "file_ok sh pwd cmd f" and rest: "\<forall>f\<in>set files. file_ok sh pwd cmd f" by simp_all
  let ?new = "if changes_of_file sh pwd cmd f = [] then []
              else [\<lparr>Changes = changes_of_file sh pwd cmd f, Path = f\<rparr>]"
  have "files_loop sh pwd cmd (f # files) fileChanges = files_loop sh pwd cmd files (fileChanges @ ?new)"
    by (rule files_loop_step [OF f])
  also have "\<dots> = Inr ((fileChanges @ ?new) @ map (\<lambda>f. \<lparr>Changes = changes_of_file sh pwd cmd f, Path = f\<rparr>)
                          (filter (\<lambda>f. changes_of_file sh pwd cmd f \<noteq> []) files))"
    by (rule Cons.IH [OF rest])
  finally show ?case by simp
qed

lemma files_loop_fail:
  "\<not> (\<forall>f\<in>set files. file_ok sh pwd cmd f) \<Longrightarrow>
   \<exists>e. files_loop sh pwd cmd files fileChanges = Inl e"
proof (induction files arbitrary: fileChanges)
  case Nil then show ?case by simp
next
  case (Cons f files)
  show ?case
  proof (cases "file_ok sh pwd cmd f")
    case False
    then show ?thesis by (rule files_loop_step_fail)
  next
    case True
    with Cons.prems have "\<not> (\<forall>f\<in>set files. file_ok sh pwd cmd f)" by simp
    from Cons.IH [OF this] show ?thesis by (simp only: files_loop_step [OF True])
  qed
qed

lemmas hunk_eval = findHunkHeadersOfFile_def FindAllString.simps hunk_here_def is_hunk_char_def
  Let_def

lemma eval_list:
  "listChangedFiles example_shell ''.'' ''git diff -U0'' = Inr [''a.go'', ''b.go'', []]"
  by (simp add: listChangedFiles_def example_shell_def)

lemma eval_headers_a:
  "findHunkHeadersOfFile example_shell ''.'' ''git diff -U0'' ''a.go''
     = Inr [''@@ -8,2 +8,2 @@'', ''@@ -11,1 +10,0 @@'']"
  by (simp add: example_shell_def hunk_eval)

lemma eval_headers_b:
  "findHunkHeadersOfFile example_shell ''.'' ''git diff -U0'' ''b.go'' = Inr [''@@ -3 +3 @@'']"
  by (simp add: example_shell_def hunk_eval)

lemma eval_headers_empty:
  "findHunkHeadersOfFile example_shell ''.'' ''git diff -U0'' [] = Inr []"
  by (simp add: example_shell_def hunk_eval)

lemma eval_parse_8_2: "findChangesByHunkHeader ''@@ -8,2 +8,2 @@'' = Inr [[8, 10]]"
  by (simp add: parse_eval)

lemma eval_parse_10_0: "findChangesByHunkHeader ''@@ -11,1 +10,0 @@'' = Inr [[10, 10]]"
  by (simp add: parse_eval)

lemma eval_parse_single: "findChangesByHunkHeader ''@@ -3 +3 @@'' = Inr []"
  by (simp add: parse_eval)

lemmas example_evals = eval_list eval_headers_a eval_headers_b eval_headers_empty
  eval_parse_8_2 eval_parse_10_0 eval_parse_single

lemma eval_findChanges:
  "findChanges example_shell ''.'' ''git diff -U0''
     = Inr [\<lparr>Changes = [\<lparr>Start = 8, End = 10\<rparr>, \<lparr>Start = 10, End = 10\<rparr>], Path = ''a.go''\<rparr>]"
  by (simp add: findChanges_def example_evals)

text \<open>
  Claim C7.  For the file list \<open>files\<close> returned by \<open>listChangedFiles\<close>, \<open>findChanges\<close>
  succeeds exactly when every per-file command succeeds and every hunk header parses, and
  then it returns one \<open>FileChange\<close> for each file of the list whose accumulated ranges are
  not empty, in the order of the list.  The ranges of a file are the ranges of its headers
  concatenated in header order, each header's in the order the parser returned them: they are
  neither merged nor sorted nor deduplicated.  Every returned \<open>FileChange\<close> has a non-empty
  list of ranges.
\<close>

theorem C7_one_entry_per_file_with_ranges_in_order:
  assumes "listChangedFiles sh pwd cmd = Inr files"
  shows "(findChanges sh pwd cmd = Inr fileChanges \<longleftrightarrow>
            (\<forall>f\<in>set files. file_ok sh pwd cmd f)
            \<and> fileChanges = map (\<lambda>f. \<lparr>Changes = changes_of_file sh pwd cmd f, Path = f\<rparr>)
                               (filter (\<lambda>f. changes_of_file sh pwd cmd f \<noteq> []) files))
         \<and> (findChanges sh pwd cmd = Inr fileChanges \<longrightarrow> (\<forall>fc\<in>set fileChanges. Changes fc \<noteq> []))
         \<and> (list_all (\<lambda>h. \<not> isl (findChangesByHunkHeader h)) hs \<longrightarrow>
              headers_loop hs changes = Inr (changes @ concat (map changes_of_header hs)))"
proof -
  have fc: "findChanges sh pwd cmd = files_loop sh pwd cmd files []"
    using assms by (simp add: findChanges_def)
  have a: "findChanges sh pwd cmd = Inr fileChanges \<longleftrightarrow>
            (\<forall>f\<in>set files. file_ok sh pwd cmd f)
            \<and> fileChanges = map (\<lambda>f. \<lparr>Changes = changes_of_file sh pwd cmd f, Path = f\<rparr>)
                               (filter (\<lambda>f. changes_of_file sh pwd cmd f \<noteq> []) files)"
  proof (cases "\<forall>f\<in>set files. file_ok sh pwd cmd f")
    case True
    from files_loop_ok [OF True, of "[]"] True show ?thesis unfolding fc by auto
  next
    case False
    from files_loop_fail [OF False, of "[]"] False show ?thesis unfolding fc by auto
  qed
  have b: "\<forall>fc\<in>set fileChanges. Changes fc \<noteq> []" if "findChanges sh pwd cmd = Inr fileChanges"
    using that unfolding a by auto
  have c: "headers_loop hs changes = Inr (changes @ concat (map changes_of_header hs))"
    if "list_all (\<lambda>h. \<not> isl (findChangesByHunkHeader h)) hs"
    using that by (rule headers_loop_ok)
  from a b c show ?thesis by blast
qed

theorem C7_witness:
  "listChangedFiles example_shell ''.'' ''git diff -U0'' = Inr [''a.go'', ''b.go'', []]
   \<and> findChanges example_shell ''.'' ''git diff -U0''
       = Inr [\<lparr>Changes = [\<lparr>Start = 8, End = 10\<rparr>, \<lparr>Start = 10, End = 10\<rparr>], Path = ''a.go''\<rparr>]
   \<and> list_all (file_ok example_shell ''.'' ''git diff -U0'') [''a.go'', ''b.go'', []]
   \<and> headers_loop [''@@ -8,2 +8,2 @@'', ''@@ -11,1 +10,0 @@'', ''@@ -8,2 +8,2 @@''] []
       = Inr [\<lparr>Start = 8, End = 10\<rparr>, \<lparr>Start = 10, End = 10\<rparr>, \<lparr>Start = 8, End = 10\<rparr>]"
  using C7_one_entry_per_file_with_ranges_in_order
    [of example_shell "''.''" "''git diff -U0''" "[''a.go'', ''b.go'', []]"
      "[\<lparr>Changes = [\<lparr>Start = 8, End = 10\<rparr>, \<lparr>Start = 10, End = 10\<rparr>], Path = ''a.go''\<rparr>]"
      "[''@@ -8,2 +8,2 @@'', ''@@ -11,1 +10,0 @@'', ''@@ -8,2 +8,2 @@'']" "[]"]
  by (simp add: example_evals eval_findChanges file_ok_def headers_of_def changes_of_header_def)

lemmas lint_defs = NewGolangCILint_def SetPwd_def SetOutputJSON_def SetInspectDes_def
  Execute_def FindJSONIssues_def

text \<open>
  Claim C9.  The outcome of \<open>main\<close> does not depend on what \<open>lint.Execute()\<close> returns: with
  any other exit status of the lint runner the run is the same.  It is decided by reading and
  decoding the JSON file and by building the change set; in particular, when the lint runner
  fails and the file decodes and the change set builds, the run ends with printing the
  selected issues.
\<close>

theorem C9_lint_exit_status_ignored:
  assumes "lint = SetInspectDes inspectDes (SetOutputJSON jsonFile (SetPwd pwd NewGolangCILint))"
  shows "main (w\<lparr>run_status := status\<rparr>) pwd cmd jsonFile inspectDes = main w pwd cmd jsonFile inspectDes
         \<and> main w pwd cmd jsonFile inspectDes =
             (case FindJSONIssues w lint of
                Inl err \<Rightarrow> Panicked err
              | Inr issues \<Rightarrow>
                  (case findChanges (run_output w) pwd cmd of
                     Inl err \<Rightarrow> Panicked err
                   | Inr changes \<Rightarrow> Printed (select issues (getChangesByFileName changes))))
         \<and> (Execute w lint = Some err \<and> FindJSONIssues w lint = Inr issues
              \<and> findChanges (run_output w) pwd cmd = Inr changes
            \<longrightarrow> main w pwd cmd jsonFile inspectDes = Printed (select issues (getChangesByFileName changes)))"
proof -
  have m: "main w pwd cmd jsonFile inspectDes =
             (case FindJSONIssues w lint of
                Inl err \<Rightarrow> Panicked err
              | Inr issues \<Rightarrow>
                  (case findChanges (run_output w) pwd cmd of
                     Inl err \<Rightarrow> Panicked err
                   | Inr changes \<Rightarrow> Printed (select issues (getChangesByFileName changes))))" for w
    by (simp add: main_def assms Let_def)
  have "FindJSONIssues (w\<lparr>run_status := status\<rparr>) lint = FindJSONIssues w lint"
    by (simp add: FindJSONIssues_def split: sum.split)
  then have a: "main (w\<lparr>run_status := status\<rparr>) pwd cmd jsonFile inspectDes = main w pwd cmd jsonFile inspectDes"
    by (simp add: m split: sum.split)
  have c: "main w pwd cmd jsonFile inspectDes = Printed (select issues (getChangesByFileName changes))"
    if "FindJSONIssues w lint = Inr issues" "findChanges (run_output w) pwd cmd = Inr changes"
    using that by (simp add: m)
  from a m [of w] c show ?thesis by blast
qed

lemma eval_Execute:
  "Execute example_world (SetInspectDes ''./...'' (SetOutputJSON ''/tmp/golang_ci_lint.json'' (SetPwd ''.'' NewGolangCILint)))
     = Some (ExecError ''exit status 1'')"
  by (simp add: lint_defs example_world_def)

lemma eval_FindJSONIssues:
  "FindJSONIssues example_world (SetInspectDes ''./...'' (SetOutputJSON ''/tmp/golang_ci_lint.json'' (SetPwd ''.'' NewGolangCILint)))
     = Inr [issue_at ''a.go'' 9, issue_at ''a.go'' 12, issue_at ''b.go'' 3]"
  by (simp add: lint_defs example_world_def)

lemma eval_run_output: "run_output example_world = example_shell"
  by (simp add: example_world_def)

lemma eval_select:
  "select [issue_at ''a.go'' 9, issue_at ''a.go'' 12, issue_at ''b.go'' 3]
     (getChangesByFileName
        [\<lparr>Changes = [\<lparr>Start = 8, End = 10\<rparr>, \<lparr>Start = 10, End = 10\<rparr>], Path = ''a.go''\<rparr>])
   = [issue_at ''a.go'' 9]"
  by (simp add: example_defs)

theorem C9_witness:
  "Execute example_world (SetInspectDes ''./...'' (SetOutputJSON ''/tmp/golang_ci_lint.json'' (SetPwd ''.'' NewGolangCILint)))
     = Some (ExecError ''exit status 1'')
   \<and> main example_world ''.'' ''git diff -U0'' ''/tmp/golang_ci_lint.json'' ''./...''
       = Printed [issue_at ''a.go'' 9]
   \<and> main (example_world\<lparr>run_status := \<lambda>script. None\<rparr>) ''.'' ''git diff -U0'' ''/tmp/golang_ci_lint.json'' ''./...''
       = Printed [issue_at ''a.go'' 9]"
  using C9_lint_exit_status_ignored
    [where lint = "SetInspectDes ''./...'' (SetOutputJSON ''/tmp/golang_ci_lint.json'' (SetPwd ''.'' NewGolangCILint))"
      and inspectDes = "''./...''" and jsonFile = "''/tmp/golang_ci_lint.json''" and pwd = "''.''"
      and w = example_world and status = "\<lambda>script. None" and cmd = "''git diff -U0''"
      and err = "ExecError ''exit status 1''"
      and issues = "[issue_at ''a.go'' 9, issue_at ''a.go'' 12, issue_at ''b.go'' 3]"
      and changes = "[\<lparr>Changes = [\<lparr>Start = 8, End = 10\<rparr>, \<lparr>Start = 10, End = 10\<rparr>], Path = ''a.go''\<rparr>]"]
  by (simp add: eval_Execute eval_FindJSONIssues eval_run_output eval_findChanges eval_select)

end
